theory Spec2Isabelle
  imports Main "HOL-Library.Sublist"
begin

section \<open>Data model\<close>

text \<open>
  The script keeps every record as a JSON dictionary and reads it through the key
  constants \<open>ID\<close>, \<open>NAME\<close>, \<open>CHILD_BRANCHES\<close>, ... of lines 33-40. The records
  below carry the keys that \<open>ForEachBranch\<close>, \<open>AddShopInfo\<close>, \<open>InitGlobals\<close> and
  \<open>FuzzyLookupItem\<close> read or write. A reference to another table (\<open>{"Id": n}\<close>)
  is its \<open>Id\<close>; a reference that Python finds falsy (\<open>null\<close> or \<open>{}\<close>) is \<open>None\<close>.
\<close>

record entity =
  ID :: int
  NAME :: "string option"

record area = entity +
  SUBSURFACE :: "bool option"

text \<open>
  An outcome is read for its nested branch list, its \<open>LinkToEvent\<close> and its
  \<open>SwitchToSetting\<close>; a branch for its four outcome slots (\<open>EVENT_TYPES\<close>).
\<close>

datatype outcome =
  Outcome (OUTCOME_CHILD_BRANCHES: "branch list")
          (LINK_TO_EVENT: "int option")
          (SWITCH_TO_SETTING: "int option")
and branch =
  Branch (SUCCESS_EVENT: "outcome option")
         (DEFAULT_EVENT: "outcome option")
         (RARE_SUCCESS_EVENT: "outcome option")
         (RARE_DEFAULT_EVENT: "outcome option")

record event = entity +
  LIMITED_TO_AREA :: "int option"
  CHILD_BRANCHES :: "branch list"

record exchange_group = entity +
  SETTING_IDS :: "int list"

record port =
  PORT_AREA :: int
  PORT_SUBSURFACE :: bool
  SETTING :: int

record tile_entry =
  PORT_DATA :: "port list"

record tile =
  TILES :: "tile_entry list"

text \<open>
  Exceptions. \<open>NestedBranch\<close>, \<open>IdNotFound\<close>, \<open>NameNotFound\<close> and \<open>MultipleMatches\<close>
  are the four \<open>RuntimeError\<close>s of the script, each with the values its message is
  formatted from; \<open>KeyError\<close> is a failed dictionary lookup and \<open>AttributeError\<close> the
  call of \<open>startswith\<close> on a \<open>null\<close> name.
\<close>

datatype error =
  NestedBranch int "branch list"
| KeyError int
| AttributeError
| IdNotFound int
| NameNotFound string
| MultipleMatches string "string option list"

definition LIMBO :: int where
  "LIMBO = 101956"

section \<open>Loops that may raise\<close>

text \<open>
  A \<open>for\<close> loop over a list whose body may raise: the first exception ends the loop.
\<close>

primrec for_list :: "'a list \<Rightarrow> ('a \<Rightarrow> 's \<Rightarrow> error + 's) \<Rightarrow> 's \<Rightarrow> error + 's" where
  "for_list [] body s = Inr s"
| "for_list (x # xs) body s =
     (case body x s of Inl e \<Rightarrow> Inl e | Inr s' \<Rightarrow> for_list xs body s')"

text \<open>
  A generator is the list of the values it yields and the exception that ends it, if
  any. A \<open>for\<close> loop over a generator runs its body on each yielded value, in order,
  and meets the generator's exception only after the body has run on all of them.
\<close>

definition for_gen :: "'a list \<times> error option \<Rightarrow> ('a \<Rightarrow> 's \<Rightarrow> error + 's) \<Rightarrow> 's \<Rightarrow> error + 's" where
  "for_gen gen body s =
     (case for_list (fst gen) body s of
        Inl e \<Rightarrow> Inl e
      | Inr s' \<Rightarrow> (case snd gen of Some e \<Rightarrow> Inl e | None \<Rightarrow> Inr s'))"

section \<open>ForEachBranch\<close>

definition EVENT_TYPES :: "(branch \<Rightarrow> outcome option) list" where
  "EVENT_TYPES = [SUCCESS_EVENT, DEFAULT_EVENT, RARE_SUCCESS_EVENT, RARE_DEFAULT_EVENT]"

text \<open>
  The slots the two nested loops of \<open>ForEachBranch\<close> visit, in the order they visit
  them: branch by branch, and within a branch in the order of \<open>EVENT_TYPES\<close>.
\<close>

definition branch_slots :: "branch list \<Rightarrow> outcome option list" where
  "branch_slots bs = concat (map (\<lambda>b. map (\<lambda>x. x b) EVENT_TYPES) bs)"

text \<open>
  The body of the inner loop: an absent outcome is skipped, an outcome with nested
  branches raises, any other outcome is yielded.
\<close>

fun walk_slots :: "int \<Rightarrow> outcome option list \<Rightarrow> outcome list \<times> error option" where
  "walk_slots eid [] = ([], None)"
| "walk_slots eid (None # rest) = walk_slots eid rest"
| "walk_slots eid (Some outcome # rest) =
     (if OUTCOME_CHILD_BRANCHES outcome \<noteq> []
      then ([], Some (NestedBranch eid (OUTCOME_CHILD_BRANCHES outcome)))
      else (outcome # fst (walk_slots eid rest), snd (walk_slots eid rest)))"

definition ForEachBranch :: "event \<Rightarrow> outcome list \<times> error option" where
  "ForEachBranch event = walk_slots (ID event) (branch_slots (CHILD_BRANCHES event))"

section \<open>Strings\<close>

text \<open>
  A \<open>str\<close> is the list of its characters. Text beyond the 256 values of \<open>char\<close> can be
  written in any encoding that keeps equality and containment, as UTF-8 does; nothing
  below depends on which.
\<close>

text \<open>\<open>a in b\<close> on strings: \<open>a\<close> occurs in \<open>b\<close> as a contiguous run.\<close>

primrec contains :: "string \<Rightarrow> string \<Rightarrow> bool" where
  "contains tok [] = (tok = [])"
| "contains tok (c # cs) = (prefix tok (c # cs) \<or> contains tok cs)"

text \<open>
  The three builtins that \<open>FuzzyLookupItem\<close> calls, \<open>int\<close>, \<open>str.islower\<close> and
  \<open>str.lower\<close>, follow the Unicode tables of the interpreter. The lookup takes them as
  parameters (\<open>py_int\<close>, \<open>islower\<close>, \<open>lower\<close>; \<open>py_int s = None\<close> is the \<open>ValueError\<close>),
  and what is proved of it holds for whatever they compute.
\<close>

subsection \<open>The builtins on ASCII text\<close>

text \<open>
  For the fixtures, which are ASCII text, the three builtins are written out. On ASCII
  text the cased characters are the 26 letters.
\<close>

definition upper_chars :: string where
  "upper_chars = ''ABCDEFGHIJKLMNOPQRSTUVWXYZ''"

definition lower_chars :: string where
  "lower_chars = ''abcdefghijklmnopqrstuvwxyz''"

definition lower_char :: "char \<Rightarrow> char" where
  "lower_char c = (case map_of (zip upper_chars lower_chars) c of Some d \<Rightarrow> d | None \<Rightarrow> c)"

definition ascii_lower :: "string \<Rightarrow> string" where
  "ascii_lower s = map lower_char s"

text \<open>\<open>str.islower\<close>: at least one cased character, and no upper-case one.\<close>

definition ascii_islower :: "string \<Rightarrow> bool" where
  "ascii_islower s =
     (list_ex (\<lambda>c. c \<in> set lower_chars) s \<and> \<not> list_ex (\<lambda>c. c \<in> set upper_chars) s)"

text \<open>
  \<open>int(s)\<close> on ASCII text: the white space around the number (blank, tab, line feed,
  vertical tab, form feed, carriage return) is dropped, one sign is allowed, and the
  rest is decimal digits, where single underscores may stand between digits. \<open>None\<close> is
  the \<open>ValueError\<close>. The bound that newer interpreters put on the number of digits is
  left out.
\<close>

definition is_space :: "char \<Rightarrow> bool" where
  "is_space c = (c \<in> set [CHR 0x09, CHR 0x0A, CHR 0x0B, CHR 0x0C, CHR 0x0D, CHR 0x20])"

definition strip :: "string \<Rightarrow> string" where
  "strip s = rev (dropWhile is_space (rev (dropWhile is_space s)))"

definition digit_val :: "char \<Rightarrow> int option" where
  "digit_val c = map_of (zip ''0123456789'' [0, 1, 2, 3, 4, 5, 6, 7, 8, 9]) c"

fun ascii_digits :: "int \<Rightarrow> string \<Rightarrow> int option" where
  "ascii_digits acc [] = Some acc"
| "ascii_digits acc (c # cs) =
     (if c = CHR ''_''
      then (case cs of
              [] \<Rightarrow> None
            | d # ds \<Rightarrow> (case digit_val d of
                           None \<Rightarrow> None
                         | Some v \<Rightarrow> ascii_digits (acc * 10 + v) ds))
      else (case digit_val c of
              None \<Rightarrow> None
            | Some v \<Rightarrow> ascii_digits (acc * 10 + v) cs))"

definition ascii_unsigned :: "string \<Rightarrow> int option" where
  "ascii_unsigned s =
     (case s of
        [] \<Rightarrow> None
      | c # cs \<Rightarrow> (case digit_val c of None \<Rightarrow> None | Some v \<Rightarrow> ascii_digits v cs))"

definition ascii_int :: "string \<Rightarrow> int option" where
  "ascii_int s =
     (case strip s of
        [] \<Rightarrow> None
      | c # cs \<Rightarrow>
          if c = CHR ''-'' then map_option uminus (ascii_unsigned cs)
          else if c = CHR ''+'' then ascii_unsigned cs
          else ascii_unsigned (c # cs))"

section \<open>FuzzyLookupItem\<close>

text \<open>\<open>x[NAME] or ''\<close>: a \<open>null\<close> name reads as the empty string.\<close>

definition name_or_empty :: "'a entity_scheme \<Rightarrow> string" where
  "name_or_empty x = (case NAME x of None \<Rightarrow> [] | Some n \<Rightarrow> n)"

text \<open>
  The loop of the \<open>except ValueError\<close> branch (lines 168-175). \<open>Inl x\<close> is the
  \<open>return x\<close> from inside the loop, \<open>Inr matches\<close> the list at the loop's end.
\<close>

fun name_loop :: "(string \<Rightarrow> string) \<Rightarrow> string \<Rightarrow> bool \<Rightarrow> 'a entity_scheme list \<Rightarrow>
    'a entity_scheme list \<Rightarrow> 'a entity_scheme + 'a entity_scheme list" where
  "name_loop lower name_or_id insensitive [] matches = Inr matches"
| "name_loop lower name_or_id insensitive (x # lst) matches =
     (let name = name_or_empty x in
      if name_or_id = name then Inl x
      else let name = (if insensitive then lower name else name) in
        if contains name_or_id name
        then name_loop lower name_or_id insensitive lst (matches @ [x])
        else name_loop lower name_or_id insensitive lst matches)"

text \<open>
  \<open>FuzzyLookupItem(name_or_id, lst)\<close>, with the three builtins it calls as its first
  arguments.
\<close>

definition FuzzyLookupItem :: "(string \<Rightarrow> int option) \<Rightarrow> (string \<Rightarrow> bool) \<Rightarrow> (string \<Rightarrow> string) \<Rightarrow>
    string \<Rightarrow> 'a entity_scheme list \<Rightarrow> error + 'a entity_scheme" where
  "FuzzyLookupItem py_int islower lower name_or_id lst =
     (case py_int name_or_id of
        Some idd \<Rightarrow>
          (case find (\<lambda>x. ID x = idd) lst of
             Some x \<Rightarrow> Inr x
           | None \<Rightarrow> Inl (IdNotFound idd))
      | None \<Rightarrow>
          (case name_loop lower name_or_id (islower name_or_id) lst [] of
             Inl x \<Rightarrow> Inr x
           | Inr matches \<Rightarrow>
               (case matches of
                  [x] \<Rightarrow> Inr x
                | [] \<Rightarrow> Inl (NameNotFound name_or_id)
                | _ \<Rightarrow> Inl (MultipleMatches name_or_id (map NAME matches)))))"

section \<open>InitGlobals: the derived area list of every event\<close>

text \<open>
  The objects of a loaded table are told apart by their position in the table (their
  address). An id map (\<open>AREAS_MAP\<close>, \<open>EVENTS_MAP\<close>) is filled in table order by
  \<open>MAP[item[ID]] = item\<close>, so of two objects with one id the later one stays.
\<close>

primrec index_by_id :: "nat \<Rightarrow> 'a entity_scheme list \<Rightarrow> (int \<rightharpoonup> nat) \<Rightarrow> (int \<rightharpoonup> nat)" where
  "index_by_id n [] m = m"
| "index_by_id n (item # items) m = index_by_id (Suc n) items (m(ID item \<mapsto> n))"

definition EVENTS_MAP :: "event list \<Rightarrow> (int \<rightharpoonup> nat)" where
  "EVENTS_MAP events = index_by_id 0 events Map.empty"

text \<open>
  The body of the loop of lines 115-119: an outcome without a link is passed over, a
  link whose id \<open>EVENTS_MAP\<close> does not have raises, any other link pushes the event
  object it resolves to.
\<close>

definition push_link :: "event list \<Rightarrow> outcome \<Rightarrow> nat list \<Rightarrow> error + nat list" where
  "push_link events outcome stack =
     (case LINK_TO_EVENT outcome of
        None \<Rightarrow> Inr stack
      | Some link \<Rightarrow>
          (case EVENTS_MAP events link of
             None \<Rightarrow> Inl (KeyError link)
           | Some event \<Rightarrow> Inr (event # stack)))"

subsection \<open>The traversal and its termination\<close>

lemma index_by_id_range:
  "index_by_id n evs m k = Some j \<Longrightarrow> m k = Some j \<or> (n \<le> j \<and> j < n + length evs)"
proof (induction evs arbitrary: n m)
  case Nil
  then show ?case by simp
next
  case (Cons ev evs)
  from Cons.prems have "index_by_id (Suc n) evs (m(ID ev \<mapsto> n)) k = Some j"
    by simp
  then have "(m(ID ev \<mapsto> n)) k = Some j \<or> (Suc n \<le> j \<and> j < Suc n + length evs)"
    by (rule Cons.IH)
  then show ?case
    by (cases "k = ID ev") auto
qed

lemma EVENTS_MAP_range: "EVENTS_MAP events k = Some j \<Longrightarrow> j < length events"
  unfolding EVENTS_MAP_def by (drule index_by_id_range) simp

text \<open>
  The event objects that the links of a list of outcomes resolve to.
\<close>

definition links_of :: "event list \<Rightarrow> outcome list \<Rightarrow> nat set" where
  "links_of events outcomes =
     {j. \<exists>outcome \<in> set outcomes. \<exists>k. LINK_TO_EVENT outcome = Some k \<and> EVENTS_MAP events k = Some j}"

lemma for_list_push_link:
  "for_list outcomes (push_link events) stack = Inr stack' \<Longrightarrow>
     set stack' = set stack \<union> links_of events outcomes"
proof (induction outcomes arbitrary: stack)
  case Nil
  then show ?case by (simp add: links_of_def)
next
  case (Cons outcome outcomes)
  then show ?case
    by (auto simp add: links_of_def push_link_def split: sum.splits option.splits)
qed

lemma for_gen_push_link:
  "for_gen gen (push_link events) stack = Inr stack' \<Longrightarrow>
     snd gen = None \<and> set stack' = set stack \<union> links_of events (fst gen)"
  by (auto simp add: for_gen_def dest: for_list_push_link split: sum.splits option.splits)

lemma links_of_range: "j \<in> links_of events outcomes \<Longrightarrow> j < length events"
  by (auto simp add: links_of_def dest: EVENTS_MAP_range)

text \<open>
  The \<open>while stack\<close> loop of lines 110-119, for one origin area id. \<open>events\<close> is the
  table, \<open>AREA\<close> gives the derived list \<open>event[AREA]\<close> of the event object at each
  address, and \<open>stack\<close> holds addresses of event objects with the top of the Python
  list first: \<open>stack.pop()\<close> takes the head and \<open>stack.append\<close> conses. An exception
  ends the whole run, so nothing is returned of the lists then. An address that reaches
  the stack is the seed's or comes from \<open>EVENTS_MAP\<close>, so it is below the length of the
  table.
\<close>

function dfs :: "event list \<Rightarrow> int \<Rightarrow> (nat \<Rightarrow> int list) \<Rightarrow> nat list \<Rightarrow> error + (nat \<Rightarrow> int list)" where
  "dfs events limit_id AREA [] = Inr AREA"
| "dfs events limit_id AREA (event # stack) =
     (if limit_id \<in> set (AREA event) then dfs events limit_id AREA stack
      else (case for_gen (ForEachBranch (events ! event)) (push_link events) stack of
              Inl e \<Rightarrow> Inl e
            | Inr stack' \<Rightarrow> dfs events limit_id (AREA(event := AREA event @ [limit_id])) stack'))"
  by pat_completeness auto

text \<open>
  The measure of the termination proof: the event objects, of the table or on the stack,
  that do not have the origin id yet. Visiting an object takes it out of this set, and
  popping an object that has the id leaves the set as it is and shortens the stack.
\<close>

definition unvisited :: "event list \<Rightarrow> int \<Rightarrow> (nat \<Rightarrow> int list) \<Rightarrow> nat list \<Rightarrow> nat set" where
  "unvisited events limit_id AREA stack =
     {i. (i < length events \<or> i \<in> set stack) \<and> limit_id \<notin> set (AREA i)}"

lemma finite_unvisited: "finite (unvisited events limit_id AREA stack)"
proof -
  have "unvisited events limit_id AREA stack \<subseteq> {..<length events} \<union> set stack"
    by (auto simp add: unvisited_def)
  then show ?thesis by (rule finite_subset) simp
qed

lemma unvisited_pop:
  "card (unvisited events limit_id AREA stack) \<le> card (unvisited events limit_id AREA (event # stack))"
  by (rule card_mono [OF finite_unvisited]) (auto simp add: unvisited_def)

lemma unvisited_visit:
  assumes "limit_id \<notin> set (AREA event)"
    and "for_gen gen (push_link events) stack = Inr stack'"
  shows "card (unvisited events limit_id (AREA(event := AREA event @ [limit_id])) stack')
       < card (unvisited events limit_id AREA (event # stack))"
proof (rule psubset_card_mono [OF finite_unvisited])
  from assms(2) have s: "set stack' = set stack \<union> links_of events (fst gen)"
    by (simp add: for_gen_push_link)
  have "event \<in> unvisited events limit_id AREA (event # stack)"
    using assms(1) by (simp add: unvisited_def)
  moreover have "event \<notin> unvisited events limit_id (AREA(event := AREA event @ [limit_id])) stack'"
    by (simp add: unvisited_def)
  moreover have "unvisited events limit_id (AREA(event := AREA event @ [limit_id])) stack'
      \<subseteq> unvisited events limit_id AREA (event # stack)"
    using s by (auto simp add: unvisited_def dest: links_of_range split: if_splits)
  ultimately show "unvisited events limit_id (AREA(event := AREA event @ [limit_id])) stack'
      \<subset> unvisited events limit_id AREA (event # stack)"
    by blast
qed

termination dfs
proof (relation "measures [\<lambda>(events, limit_id, AREA, stack). card (unvisited events limit_id AREA stack),
                           \<lambda>(events, limit_id, AREA, stack). length stack]", goal_cases)
  case 1
  show ?case by simp
next
  case 2
  show ?case using unvisited_pop by (auto simp add: le_less)
next
  case 3
  then show ?case by (simp add: unvisited_visit)
qed

declare dfs.simps [simp del]

subsection \<open>The propagation phase\<close>

text \<open>
  Lines 104-119: every event of the table seeds one traversal, if it has an origin area.
  \<open>x\<close> is the event object (its address and its record).
\<close>

definition seed :: "event list \<Rightarrow> nat \<times> event \<Rightarrow> (nat \<Rightarrow> int list) \<Rightarrow> error + (nat \<Rightarrow> int list)" where
  "seed events x AREA =
     (case LIMITED_TO_AREA (snd x) of
        None \<Rightarrow> Inr AREA
      | Some limit_id \<Rightarrow> dfs events limit_id AREA [fst x])"

definition propagate :: "event list \<Rightarrow> error + (nat \<Rightarrow> int list)" where
  "propagate events = for_list (enumerate 0 events) (seed events) (\<lambda>event. [])"

section \<open>InitGlobals: the areas of every exchange group\<close>

text \<open>
  The area objects are mutated while lists of \<open>SHOP_AREAS\<close> already refer to them, so
  they are kept in a store: the list of the objects of the table, which the address of an
  object indexes. \<open>AREAS_MAP\<close> and the lists of \<open>SHOP_AREAS\<close> hold addresses.
\<close>

definition AREAS_MAP :: "area list \<Rightarrow> (int \<rightharpoonup> nat)" where
  "AREAS_MAP areas = index_by_id 0 areas Map.empty"

text \<open>
  \<open>area in value\<close> (line 80): Python compares the area with each element of the list,
  first by identity and then by \<open>==\<close>, which on dictionaries compares the contents.
  (The objects that \<open>AREAS_MAP\<close> holds differ in their \<open>ID\<close>, so for them the two agree.)
\<close>

definition area_in :: "area list \<Rightarrow> nat \<Rightarrow> nat list \<Rightarrow> bool" where
  "area_in areas area value = list_ex (\<lambda>x. x = area \<or> areas ! x = areas ! area) value"

text \<open>
  \<open>AddShopInfo(group, area)\<close>. \<open>areas\<close> are the area objects as they are at the call,
  \<open>area\<close> is the address of the argument and \<open>shops\<close> is \<open>SHOP_AREAS\<close>, whose lists hold
  addresses of area objects.
\<close>

definition AddShopInfo :: "area list \<Rightarrow> exchange_group \<Rightarrow> nat \<Rightarrow> (int \<rightharpoonup> nat list) \<Rightarrow>
    error + (int \<rightharpoonup> nat list)" where
  "AddShopInfo areas grp area shops =
     (if ID (areas ! area) = LIMBO then Inr shops
      else (case shops (ID grp) of
              None \<Rightarrow> Inl (KeyError (ID grp))
            | Some value \<Rightarrow>
                if \<not> area_in areas area value then Inr (shops(ID grp \<mapsto> value @ [area]))
                else Inr shops))"

text \<open>Lines 84-93: the subsurface key of every area, and the four corrected names.\<close>

definition rename_area :: "(int \<rightharpoonup> nat) \<Rightarrow> int \<times> string \<Rightarrow> area list \<Rightarrow> error + area list" where
  "rename_area amap fix areas =
     (case amap (fst fix) of
        None \<Rightarrow> Inl (KeyError (fst fix))
      | Some area \<Rightarrow> Inr (areas[area := (areas ! area)\<lparr>NAME := Some (snd fix)\<rparr>]))"

definition init_areas :: "area list \<Rightarrow> error + area list" where
  "init_areas AREAS =
     for_list [(100374, ''Venderbight''), (101981, ''The Chelonate''),
               (102000, ''Polythreme''), (102960, ''The Uttershroom'')]
       (rename_area (AREAS_MAP AREAS))
       (map (\<lambda>item. item\<lparr>SUBSURFACE := None\<rparr>) AREAS)"

text \<open>Lines 95-98: the menace qualities join \<open>BAD_QUALITIES\<close>.\<close>

definition add_quality :: "entity \<Rightarrow> (int \<rightharpoonup> string) \<Rightarrow> error + (int \<rightharpoonup> string)" where
  "add_quality item bad =
     (case NAME item of
        None \<Rightarrow> Inl AttributeError
      | Some name \<Rightarrow> Inr (if prefix ''Menaces:'' name then bad(ID item \<mapsto> name) else bad))"

definition BAD_QUALITIES :: "int \<rightharpoonup> string" where
  "BAD_QUALITIES = [102025 \<mapsto> ''Terror'', 102024 \<mapsto> ''Hunger'']"

text \<open>
  Lines 121-125: every group gets an empty list in \<open>SHOP_AREAS\<close>, and each of its
  setting ids is joined to it in \<open>settings_map\<close>.
\<close>

definition add_group :: "exchange_group \<Rightarrow> (int \<rightharpoonup> nat list) \<times> (int \<rightharpoonup> exchange_group) \<Rightarrow>
    (int \<rightharpoonup> nat list) \<times> (int \<rightharpoonup> exchange_group)" where
  "add_group grp s =
     ((fst s)(ID grp \<mapsto> []),
      fold (\<lambda>setting settings_map. settings_map(setting \<mapsto> grp)) (SETTING_IDS grp) (snd s))"

definition join_settings :: "exchange_group list \<Rightarrow> (int \<rightharpoonup> nat list) \<times> (int \<rightharpoonup> exchange_group)" where
  "join_settings EXCHANGES = fold add_group EXCHANGES (Map.empty, Map.empty)"

text \<open>
  Lines 128-138, the static shops. The state of the loop is the area objects and
  \<open>SHOP_AREAS\<close>.
\<close>

definition static_port :: "(int \<rightharpoonup> nat) \<Rightarrow> (int \<rightharpoonup> exchange_group) \<Rightarrow> port \<Rightarrow>
    area list \<times> (int \<rightharpoonup> nat list) \<Rightarrow> error + area list \<times> (int \<rightharpoonup> nat list)" where
  "static_port amap settings_map port s =
     (case amap (PORT_AREA port) of
        None \<Rightarrow> Inl (KeyError (PORT_AREA port))
      | Some area \<Rightarrow>
          let areas = (fst s)[area := (fst s ! area)\<lparr>SUBSURFACE := Some (PORT_SUBSURFACE port)\<rparr>] in
          (case settings_map (SETTING port) of
             None \<Rightarrow> Inr (areas, snd s)
           | Some grp \<Rightarrow>
               (case AddShopInfo areas grp area (snd s) of
                  Inl e \<Rightarrow> Inl e
                | Inr shops \<Rightarrow> Inr (areas, shops))))"

definition static_tile :: "(int \<rightharpoonup> nat) \<Rightarrow> (int \<rightharpoonup> exchange_group) \<Rightarrow> tile \<Rightarrow>
    area list \<times> (int \<rightharpoonup> nat list) \<Rightarrow> error + area list \<times> (int \<rightharpoonup> nat list)" where
  "static_tile amap settings_map tile s =
     (case TILES tile of
        [] \<Rightarrow> Inr s
      | entry # rest \<Rightarrow> for_list (PORT_DATA entry) (static_port amap settings_map) s)"

text \<open>Lines 141-148, the shops that change with an event.\<close>

definition add_event_area :: "(int \<rightharpoonup> nat) \<Rightarrow> area list \<Rightarrow> exchange_group \<Rightarrow> int \<Rightarrow>
    (int \<rightharpoonup> nat list) \<Rightarrow> error + (int \<rightharpoonup> nat list)" where
  "add_event_area amap areas grp area_id shops =
     (case amap area_id of
        None \<Rightarrow> Inl (KeyError area_id)
      | Some area \<Rightarrow> AddShopInfo areas grp area shops)"

definition dynamic_outcome :: "(int \<rightharpoonup> nat) \<Rightarrow> (int \<rightharpoonup> exchange_group) \<Rightarrow> area list \<Rightarrow> int list \<Rightarrow>
    outcome \<Rightarrow> (int \<rightharpoonup> nat list) \<Rightarrow> error + (int \<rightharpoonup> nat list)" where
  "dynamic_outcome amap settings_map areas event_area outcome shops =
     (case SWITCH_TO_SETTING outcome of
        None \<Rightarrow> Inr shops
      | Some setting \<Rightarrow>
          (case settings_map setting of
             None \<Rightarrow> Inl (KeyError setting)
           | Some grp \<Rightarrow> for_list event_area (add_event_area amap areas grp) shops))"

definition dynamic_event :: "(int \<rightharpoonup> nat) \<Rightarrow> (int \<rightharpoonup> exchange_group) \<Rightarrow> area list \<Rightarrow>
    (nat \<Rightarrow> int list) \<Rightarrow> nat \<times> event \<Rightarrow> (int \<rightharpoonup> nat list) \<Rightarrow> error + (int \<rightharpoonup> nat list)" where
  "dynamic_event amap settings_map areas AREA x shops =
     for_gen (ForEachBranch (snd x)) (dynamic_outcome amap settings_map areas (AREA (fst x))) shops"

text \<open>
  Lines 121-148 together: the join map, the static phase and the dynamic phase.
\<close>

definition shop_phases :: "(int \<rightharpoonup> nat) \<Rightarrow> area list \<Rightarrow> event list \<Rightarrow> (nat \<Rightarrow> int list) \<Rightarrow>
    exchange_group list \<Rightarrow> tile list \<Rightarrow> error + area list \<times> (int \<rightharpoonup> nat list)" where
  "shop_phases amap areas EVENTS AREA EXCHANGES TILES_DATA =
     (let settings_map = snd (join_settings EXCHANGES) in
      case for_list TILES_DATA (static_tile amap settings_map) (areas, fst (join_settings EXCHANGES)) of
        Inl e \<Rightarrow> Inl e
      | Inr s \<Rightarrow>
          (case for_list (enumerate 0 EVENTS) (dynamic_event amap settings_map (fst s) AREA) (snd s) of
             Inl e \<Rightarrow> Inl e
           | Inr shops \<Rightarrow> Inr (fst s, shops)))"

text \<open>
  What \<open>InitGlobals\<close> leaves behind: the area objects, \<open>BAD_QUALITIES\<close>, the derived
  list of every event object and \<open>SHOP_AREAS\<close>. The id maps are functions of the loaded
  tables (\<open>AREAS_MAP\<close>, \<open>EVENTS_MAP\<close>; \<open>QUALITIES_MAP\<close> is not read here).
\<close>

record globals =
  G_AREAS :: "area list"
  G_BAD_QUALITIES :: "int \<rightharpoonup> string"
  G_AREA :: "nat \<Rightarrow> int list"
  G_SHOP_AREAS :: "int \<rightharpoonup> nat list"

text \<open>
  \<open>InitGlobals\<close>, lines 84-148, on the five loaded tables. The first exception ends it.
\<close>

definition InitGlobals :: "area list \<Rightarrow> entity list \<Rightarrow> event list \<Rightarrow> exchange_group list \<Rightarrow> tile list \<Rightarrow>
    error + globals" where
  "InitGlobals AREAS QUALITIES EVENTS EXCHANGES TILES_DATA =
     (case init_areas AREAS of
        Inl e \<Rightarrow> Inl e
      | Inr areas \<Rightarrow>
     (case for_list QUALITIES add_quality BAD_QUALITIES of
        Inl e \<Rightarrow> Inl e
      | Inr bad \<Rightarrow>
     (case propagate EVENTS of
        Inl e \<Rightarrow> Inl e
      | Inr AREA \<Rightarrow>
     (case shop_phases (AREAS_MAP AREAS) areas EVENTS AREA EXCHANGES TILES_DATA of
        Inl e \<Rightarrow> Inl e
      | Inr s \<Rightarrow>
          Inr \<lparr>G_AREAS = fst s, G_BAD_QUALITIES = bad, G_AREA = AREA, G_SHOP_AREAS = snd s\<rparr>))))"

section \<open>Notions of the statements\<close>

text \<open>
  The outcomes of an event: what stands in one of the four slots of one of its branches.
\<close>

definition outcomes_of :: "event \<Rightarrow> outcome set" where
  "outcomes_of event =
     {outcome. \<exists>b \<in> set (CHILD_BRANCHES event).
        Some outcome \<in> {SUCCESS_EVENT b, DEFAULT_EVENT b, RARE_SUCCESS_EVENT b, RARE_DEFAULT_EVENT b}}"

text \<open>
  One step along a \<open>LinkToEvent\<close> reference: the event object at address \<open>i\<close> has an
  outcome whose link \<open>EVENTS_MAP\<close> resolves to the event object at address \<open>j\<close>.
\<close>

definition linked :: "event list \<Rightarrow> (nat \<times> nat) set" where
  "linked events =
     {(i, j). i < length events \<and>
        (\<exists>outcome \<in> outcomes_of (events ! i). \<exists>k.
            LINK_TO_EVENT outcome = Some k \<and> EVENTS_MAP events k = Some j)}"

text \<open>
  The invariant of the traversal for the origin id \<open>a\<close>: whatever an object that has
  \<open>a\<close> links to has \<open>a\<close> as well, or waits in \<open>S\<close> (on the stack).
\<close>

definition closed_upto :: "event list \<Rightarrow> int \<Rightarrow> (nat \<Rightarrow> int list) \<Rightarrow> nat set \<Rightarrow> bool" where
  "closed_upto events a AREA S =
     (\<forall>i j. (i, j) \<in> linked events \<longrightarrow> a \<in> set (AREA i) \<longrightarrow> a \<in> set (AREA j) \<or> j \<in> S)"

text \<open>
  The origin ids that reach the event object at address \<open>j\<close>: those of the events
  from which a chain of links leads to it, itself included.
\<close>

definition origins_reaching :: "event list \<Rightarrow> nat \<Rightarrow> int set" where
  "origins_reaching events j =
     {a. \<exists>i < length events. LIMITED_TO_AREA (events ! i) = Some a \<and> (i, j) \<in> (linked events)\<^sup>*}"

text \<open>
  The derived lists that the propagation phase leaves, in table order.
\<close>

definition derived_lists :: "event list \<Rightarrow> error + int list list" where
  "derived_lists events =
     (case propagate events of
        Inl e \<Rightarrow> Inl e
      | Inr AREA \<Rightarrow> Inr (map AREA [0..<length events]))"

text \<open>
  A table whose outcomes have no nested branches and whose links all name an event of
  the table.
\<close>

definition well_linked :: "event list \<Rightarrow> bool" where
  "well_linked events =
     (\<forall>event \<in> set events. \<forall>outcome \<in> outcomes_of event.
        OUTCOME_CHILD_BRANCHES outcome = [] \<and>
        (\<forall>k. LINK_TO_EVENT outcome = Some k \<longrightarrow> k \<in> ID ` set events))"

text \<open>
  A table of two events that link to each other.
\<close>

definition two_cycle :: "event list \<Rightarrow> bool" where
  "two_cycle events = (length events = 2 \<and> (0, 1) \<in> linked events \<and> (1, 0) \<in> linked events)"

text \<open>
  The rule of the specification for a name fragment: the name of the entity, folded to
  lower case when the token is written entirely in lower case, contains the token.
\<close>

definition name_matches :: "(string \<Rightarrow> bool) \<Rightarrow> (string \<Rightarrow> string) \<Rightarrow> string \<Rightarrow> 'a entity_scheme \<Rightarrow> bool" where
  "name_matches islower lower tok x =
     sublist tok (if islower tok then lower (name_or_empty x) else name_or_empty x)"

text \<open>
  No list of \<open>SHOP_AREAS\<close> refers to an area whose id is \<open>LIMBO\<close>.
\<close>

definition limbo_free :: "area list \<Rightarrow> (int \<rightharpoonup> nat list) \<Rightarrow> bool" where
  "limbo_free areas shops =
     (\<forall>gid value. shops gid = Some value \<longrightarrow>
        (\<forall>area \<in> set value. area < length areas \<and> ID (areas ! area) \<noteq> LIMBO))"

text \<open>
  Invariants of the shop phases. An id map is sound for a list of ids when every entry
  leads to an address that holds its key.
\<close>

definition map_ok :: "(int \<rightharpoonup> nat) \<Rightarrow> int list \<Rightarrow> bool" where
  "map_ok amap ids = (\<forall>k r. amap k = Some r \<longrightarrow> r < length ids \<and> ids ! r = k)"

text \<open>
  Every list of \<open>SHOP_AREAS\<close> is free of repetitions, and each of its entries is the
  address that the id map has for the id found there, which is not \<open>LIMBO\<close>.
\<close>

definition shops_ok :: "(int \<rightharpoonup> nat) \<Rightarrow> int list \<Rightarrow> (int \<rightharpoonup> nat list) \<Rightarrow> bool" where
  "shops_ok amap ids shops =
     (\<forall>gid value. shops gid = Some value \<longrightarrow>
        distinct value \<and>
        (\<forall>r \<in> set value. r < length ids \<and> ids ! r \<noteq> LIMBO \<and> amap (ids ! r) = Some r))"

definition state_ok :: "(int \<rightharpoonup> nat) \<Rightarrow> int list \<Rightarrow> area list \<times> (int \<rightharpoonup> nat list) \<Rightarrow> bool" where
  "state_ok amap ids s = (map ID (fst s) = ids \<and> shops_ok amap ids (snd s))"

section \<open>Fixtures\<close>

definition fathom_list :: "entity list" where
  "fathom_list = [\<lparr>ID = 2, NAME = Some ''Fathom King''\<rparr>, \<lparr>ID = 1, NAME = Some ''Fathom''\<rparr>]"

definition abc_list :: "entity list" where
  "abc_list = [\<lparr>ID = 1, NAME = Some ''ABC Shop''\<rparr>, \<lparr>ID = 2, NAME = Some ''abcdef''\<rparr>]"

definition mixed_list :: "entity list" where
  "mixed_list = [\<lparr>ID = 1, NAME = Some ''abcdef''\<rparr>, \<lparr>ID = 2, NAME = Some ''Abcdef''\<rparr>]"

definition id_list :: "entity list" where
  "id_list = [\<lparr>ID = 7, NAME = Some ''42''\<rparr>, \<lparr>ID = 42, NAME = None\<rparr>]"

definition chain_events :: "event list" where
  "chain_events =
     [\<lparr>ID = 10, NAME = None, LIMITED_TO_AREA = Some 5,
        CHILD_BRANCHES = [Branch (Some (Outcome [] (Some 20) None)) None None None]\<rparr>,
      \<lparr>ID = 20, NAME = None, LIMITED_TO_AREA = None,
        CHILD_BRANCHES = [Branch None (Some (Outcome [] (Some 30) None)) None None]\<rparr>,
      \<lparr>ID = 30, NAME = None, LIMITED_TO_AREA = None,
        CHILD_BRANCHES = [Branch None None None (Some (Outcome [] (Some 10) None))]\<rparr>]"

definition cycle_events :: "int option \<Rightarrow> event list" where
  "cycle_events origin2 =
     [\<lparr>ID = 10, NAME = None, LIMITED_TO_AREA = Some 5,
        CHILD_BRANCHES = [Branch (Some (Outcome [] (Some 20) None)) None None None]\<rparr>,
      \<lparr>ID = 20, NAME = None, LIMITED_TO_AREA = origin2,
        CHILD_BRANCHES = [Branch None None (Some (Outcome [] (Some 10) None)) None]\<rparr>]"

definition nested_event :: event where
  "nested_event =
     \<lparr>ID = 7, NAME = None, LIMITED_TO_AREA = None,
      CHILD_BRANCHES =
        [Branch (Some (Outcome [] None None))
                (Some (Outcome [Branch None None None None] None None)) None None]\<rparr>"

definition shop_AREAS :: "area list" where
  "shop_AREAS =
     [\<lparr>ID = 100374, NAME = Some ''Venderbight (Tomb-Colonies)'', SUBSURFACE = None\<rparr>,
      \<lparr>ID = 101981, NAME = Some ''Chelonate'', SUBSURFACE = None\<rparr>,
      \<lparr>ID = 102000, NAME = Some ''Polythreme (First Visit)'', SUBSURFACE = None\<rparr>,
      \<lparr>ID = 102960, NAME = Some ''Uttershroom'', SUBSURFACE = None\<rparr>,
      \<lparr>ID = 101956, NAME = Some ''Limbo'', SUBSURFACE = None\<rparr>]"

definition shop_EVENTS :: "event list" where
  "shop_EVENTS =
     [\<lparr>ID = 1, NAME = None, LIMITED_TO_AREA = Some 100374,
        CHILD_BRANCHES = [Branch (Some (Outcome [] None (Some 50))) None None None]\<rparr>,
      \<lparr>ID = 2, NAME = None, LIMITED_TO_AREA = Some 101956,
        CHILD_BRANCHES = [Branch None (Some (Outcome [] None (Some 50))) None None]\<rparr>]"

definition shop_EXCHANGES :: "exchange_group list" where
  "shop_EXCHANGES = [\<lparr>ID = 900, NAME = Some ''Market'', SETTING_IDS = [50]\<rparr>]"

definition shop_TILES :: "tile list" where
  "shop_TILES =
     [\<lparr>TILES = [\<lparr>PORT_DATA =
        [\<lparr>PORT_AREA = 100374, PORT_SUBSURFACE = False, SETTING = 50\<rparr>,
         \<lparr>PORT_AREA = 101956, PORT_SUBSURFACE = False, SETTING = 50\<rparr>,
         \<lparr>PORT_AREA = 100374, PORT_SUBSURFACE = True, SETTING = 50\<rparr>,
         \<lparr>PORT_AREA = 101981, PORT_SUBSURFACE = False, SETTING = 77\<rparr>,
         \<lparr>PORT_AREA = 102000, PORT_SUBSURFACE = False, SETTING = 50\<rparr>]\<rparr>]\<rparr>]"

definition unjoined_EVENTS :: "event list" where
  "unjoined_EVENTS =
     [\<lparr>ID = 1, NAME = None, LIMITED_TO_AREA = Some 100374,
        CHILD_BRANCHES = [Branch (Some (Outcome [] None (Some 77))) None None None]\<rparr>]"

lemmas shop_fixture = shop_AREAS_def shop_EVENTS_def shop_EXCHANGES_def shop_TILES_def

lemmas InitGlobals_simps = InitGlobals_def init_areas_def rename_area_def AREAS_MAP_def
  add_quality_def propagate_def seed_def dfs.simps for_gen_def ForEachBranch_def
  branch_slots_def EVENT_TYPES_def push_link_def EVENTS_MAP_def shop_phases_def
  join_settings_def add_group_def static_tile_def static_port_def AddShopInfo_def
  area_in_def LIMBO_def dynamic_event_def dynamic_outcome_def add_event_area_def

section \<open>Properties of the strings and of the lookup\<close>

lemma contains_sublist: "contains tok s = sublist tok s"
  by (induction s) (simp_all add: sublist_Cons_right)

lemma lower_char_not_upper: "c \<notin> set upper_chars \<Longrightarrow> lower_char c = c"
proof -
  assume "c \<notin> set upper_chars"
  moreover have "length upper_chars = length lower_chars"
    by (simp add: upper_chars_def lower_chars_def)
  ultimately have "map_of (zip upper_chars lower_chars) c = None"
    by (simp add: map_of_zip_is_None)
  then show ?thesis by (simp add: lower_char_def)
qed

lemma ascii_lower_islower: "ascii_islower s \<Longrightarrow> ascii_lower s = s"
  unfolding ascii_islower_def ascii_lower_def list_ex_iff
  by (intro map_idI) (auto intro: lower_char_not_upper)

lemma name_loop_exact:
  "find (\<lambda>x. name_or_empty x = tok) lst = Some x \<Longrightarrow> name_loop lower tok ins lst matches = Inl x"
  by (induction lst arbitrary: matches) (auto simp add: Let_def split: if_splits)

lemma name_loop_collect:
  "\<forall>x \<in> set lst. name_or_empty x \<noteq> tok \<Longrightarrow>
     name_loop lower tok ins lst matches =
       Inr (matches @ filter (\<lambda>x. contains tok (if ins then lower (name_or_empty x) else name_or_empty x)) lst)"
  by (induction lst arbitrary: matches) (auto simp add: Let_def)

lemma name_matches_code:
  "name_matches islower lower tok x =
     contains tok (if islower tok then lower (name_or_empty x) else name_or_empty x)"
  by (simp add: name_matches_def contains_sublist)

lemmas ascii_int_simps = ascii_int_def strip_def is_space_def ascii_unsigned_def digit_val_def

lemma ascii_int_Fathom: "ascii_int ''Fathom'' = None"
  by (simp add: ascii_int_simps)

lemma ascii_int_abc: "ascii_int ''abc'' = None"
  by (simp add: ascii_int_simps)

lemma ascii_int_Abc: "ascii_int ''Abc'' = None"
  by (simp add: ascii_int_simps)

lemma ascii_int_42: "ascii_int ''42'' = Some 42"
  by (simp add: ascii_int_simps)

lemma ascii_int_8: "ascii_int ''8'' = Some 8"
  by (simp add: ascii_int_simps)

lemma ascii_int_examples:
  "ascii_int '' -1_000 '' = Some (- 1000)" "ascii_int ''+07'' = Some 7"
  "ascii_int ''1__0'' = None" "ascii_int ''4_'' = None" "ascii_int ''- 4'' = None"
  "ascii_int [] = None" "ascii_int ''0x10'' = None"
  "ascii_int [CHR 0x1C, CHR ''4'', CHR ''2''] = None" "ascii_int [CHR ''4'', CHR ''2'', CHR 0x1F] = None"
  "ascii_int [CHR 0x09, CHR ''4'', CHR ''2'', CHR 0x0A] = Some 42"
  by (simp_all add: ascii_int_simps)

lemma ascii_islower_examples:
  "ascii_islower ''abc 1''" "\<not> ascii_islower ''Abc''" "\<not> ascii_islower ''12 !''"
  "\<not> ascii_islower []"
  by (simp_all add: ascii_islower_def lower_chars_def upper_chars_def)

lemma ascii_islower_abc: "ascii_islower ''abc''"
  by (simp add: ascii_islower_def lower_chars_def upper_chars_def)

section \<open>Properties of the loops and of the walker\<close>

lemma for_gen_error: "snd gen = Some e \<Longrightarrow> \<exists>e'. for_gen gen body s = Inl e'"
  by (simp add: for_gen_def split: sum.splits)

lemma for_list_invariant:
  "for_list xs body s = Inr s' \<Longrightarrow> P s \<Longrightarrow>
     (\<And>x t t'. x \<in> set xs \<Longrightarrow> P t \<Longrightarrow> body x t = Inr t' \<Longrightarrow> P t') \<Longrightarrow> P s'"
proof (induction xs arbitrary: s)
  case Nil
  then show ?case by simp
next
  case (Cons x xs)
  from Cons.prems(1) obtain t where b: "body x s = Inr t" and r: "for_list xs body t = Inr s'"
    by (auto split: sum.splits)
  from Cons.prems(3) [OF _ Cons.prems(2) b] have pt: "P t" by simp
  show ?case
  proof (rule Cons.IH [OF r pt])
    fix y u u'
    assume "y \<in> set xs" "P u" "body y u = Inr u'"
    then show "P u'" using Cons.prems(3) [of y u u'] by simp
  qed
qed

lemma for_gen_invariant:
  assumes "for_gen gen body s = Inr s'" and "P s"
    and "\<And>x t t'. x \<in> set (fst gen) \<Longrightarrow> P t \<Longrightarrow> body x t = Inr t' \<Longrightarrow> P t'"
  shows "P s'"
proof -
  from assms(1) have "for_list (fst gen) body s = Inr s'"
    by (auto simp add: for_gen_def split: sum.splits option.splits)
  then show ?thesis using assms(2,3) by (rule for_list_invariant [where P = P])
qed

lemma for_list_fails:
  "x \<in> set xs \<Longrightarrow> (\<And>t. \<exists>e. body x t = Inl e) \<Longrightarrow> \<exists>e. for_list xs body s = Inl e"
proof (induction xs arbitrary: s)
  case Nil
  then show ?case by simp
next
  case (Cons y ys)
  show ?case
  proof (cases "body y s")
    case (Inl e)
    then show ?thesis by simp
  next
    case (Inr t)
    with Cons.prems(2) [of s] have "x \<noteq> y" by auto
    with Cons.prems(1) have "x \<in> set ys" by simp
    from Cons.IH [OF this Cons.prems(2), of t] Inr show ?thesis by simp
  qed
qed

lemma for_gen_fails:
  assumes "snd gen = None \<Longrightarrow> x \<in> set (fst gen)" and "\<And>t. \<exists>e. body x t = Inl e"
  shows "\<exists>e. for_gen gen body s = Inl e"
proof (cases "snd gen")
  case None
  from assms(1) [OF None] have "\<exists>e. for_list (fst gen) body s = Inl e"
    by (rule for_list_fails) (rule assms(2))
  then show ?thesis
    by (auto simp add: for_gen_def)
next
  case (Some e)
  then show ?thesis by (rule for_gen_error)
qed

lemma set_branch_slots:
  "Some outcome \<in> set (branch_slots (CHILD_BRANCHES event)) \<longleftrightarrow> outcome \<in> outcomes_of event"
  by (auto simp add: branch_slots_def EVENT_TYPES_def outcomes_of_def)

lemma walk_slots_clean:
  "snd (walk_slots eid slots) = None \<longleftrightarrow>
     (\<forall>outcome. Some outcome \<in> set slots \<longrightarrow> OUTCOME_CHILD_BRANCHES outcome = [])"
  by (induction eid slots rule: walk_slots.induct) auto

lemma walk_slots_error:
  "snd (walk_slots eid slots) = Some e \<Longrightarrow>
     \<exists>outcome. Some outcome \<in> set slots \<and> OUTCOME_CHILD_BRANCHES outcome \<noteq> [] \<and>
        e = NestedBranch eid (OUTCOME_CHILD_BRANCHES outcome)"
  by (induction eid slots rule: walk_slots.induct) (auto split: if_splits)

lemma walk_slots_yields:
  "snd (walk_slots eid slots) = None \<Longrightarrow>
     fst (walk_slots eid slots) = [outcome. Some outcome \<leftarrow> slots]"
  by (induction eid slots rule: walk_slots.induct) (auto split: if_splits)

lemma ForEachBranch_yields:
  "snd (ForEachBranch event) = None \<Longrightarrow> set (fst (ForEachBranch event)) = outcomes_of event"
  by (auto simp add: ForEachBranch_def walk_slots_yields set_branch_slots [symmetric])

section \<open>Properties of the traversal\<close>

lemma dfs_appends:
  "dfs events a AREA stack = Inr AREA' \<Longrightarrow>
     AREA' i = AREA i \<or> (a \<notin> set (AREA i) \<and> AREA' i = AREA i @ [a])"
proof (induction events a AREA stack rule: dfs.induct)
  case (1 events limit_id AREA)
  then show ?case by (simp add: dfs.simps)
next
  case (2 events limit_id AREA event stack)
  show ?case
  proof (cases "limit_id \<in> set (AREA event)")
    case True
    with 2 show ?thesis by (simp add: dfs.simps)
  next
    case False
    with "2.prems" obtain stack' where
      s: "for_gen (ForEachBranch (events ! event)) (push_link events) stack = Inr stack'" and
      d: "dfs events limit_id (AREA(event := AREA event @ [limit_id])) stack' = Inr AREA'"
      by (auto simp add: dfs.simps split: sum.splits)
    from "2.IH"(2) [OF False s d] False show ?thesis
      by (cases "i = event") auto
  qed
qed

lemma dfs_mono: "dfs events a AREA stack = Inr AREA' \<Longrightarrow> set (AREA i) \<subseteq> set (AREA' i)"
  using dfs_appends [of events a AREA stack AREA' i] by auto

lemma dfs_other: "dfs events a AREA stack = Inr AREA' \<Longrightarrow> b \<noteq> a \<Longrightarrow> b \<in> set (AREA' i) \<longleftrightarrow> b \<in> set (AREA i)"
  using dfs_appends [of events a AREA stack AREA' i] by auto

lemma dfs_distinct: "dfs events a AREA stack = Inr AREA' \<Longrightarrow> distinct (AREA i) \<Longrightarrow> distinct (AREA' i)"
  using dfs_appends [of events a AREA stack AREA' i] by auto

lemma closed_upto_visit:
  assumes c: "closed_upto events a AREA (set (event # stack))"
    and s: "for_gen (ForEachBranch (events ! event)) (push_link events) stack = Inr stack'"
  shows "closed_upto events a (AREA(event := AREA event @ [a])) (set stack')"
proof -
  from s have n: "snd (ForEachBranch (events ! event)) = None"
    and st: "set stack' = set stack \<union> links_of events (fst (ForEachBranch (events ! event)))"
    by (simp_all add: for_gen_push_link)
  have l: "j \<in> set stack'" if "(event, j) \<in> linked events" for j
    using that st ForEachBranch_yields [OF n] by (auto simp add: linked_def links_of_def)
  show ?thesis
    unfolding closed_upto_def
  proof (intro allI impI)
    fix i j
    assume ij: "(i, j) \<in> linked events"
      and v: "a \<in> set ((AREA(event := AREA event @ [a])) i)"
    show "a \<in> set ((AREA(event := AREA event @ [a])) j) \<or> j \<in> set stack'"
    proof (cases "i = event")
      case True
      with ij l show ?thesis by simp
    next
      case False
      with v have "a \<in> set (AREA i)" by simp
      with c ij have "a \<in> set (AREA j) \<or> j \<in> set (event # stack)"
        by (simp add: closed_upto_def)
      with st show ?thesis by auto
    qed
  qed
qed

lemma dfs_closed:
  "dfs events a AREA stack = Inr AREA' \<Longrightarrow> closed_upto events a AREA (set stack) \<Longrightarrow>
     closed_upto events a AREA' {} \<and> (\<forall>e \<in> set stack. a \<in> set (AREA' e))"
proof (induction events a AREA stack rule: dfs.induct)
  case (1 events limit_id AREA)
  then show ?case by (simp add: dfs.simps)
next
  case (2 events limit_id AREA event stack)
  show ?case
  proof (cases "limit_id \<in> set (AREA event)")
    case True
    with "2.prems" have d: "dfs events limit_id AREA stack = Inr AREA'"
      by (simp add: dfs.simps)
    from "2.prems"(2) True have "closed_upto events limit_id AREA (set stack)"
      by (auto simp add: closed_upto_def)
    from "2.IH"(1) [OF True d this] dfs_mono [OF d, of event] True
    show ?thesis by auto
  next
    case False
    with "2.prems" obtain stack' where
      s: "for_gen (ForEachBranch (events ! event)) (push_link events) stack = Inr stack'" and
      d: "dfs events limit_id (AREA(event := AREA event @ [limit_id])) stack' = Inr AREA'"
      by (auto simp add: dfs.simps split: sum.splits)
    from s have st: "set stack \<subseteq> set stack'"
      by (auto dest: for_gen_push_link)
    from "2.IH"(2) [OF False s d closed_upto_visit [OF "2.prems"(2) s]]
      dfs_mono [OF d, of event] st
    show ?thesis by auto
  qed
qed

lemma closed_upto_other:
  assumes "dfs events a AREA stack = Inr AREA'" and "b \<noteq> a" and "closed_upto events b AREA {}"
  shows "closed_upto events b AREA' {}"
  using assms(3) dfs_other [OF assms(1,2)] by (simp add: closed_upto_def)

lemma seed_closed:
  assumes "seed events x AREA = Inr AREA'" and "\<forall>a. closed_upto events a AREA {}"
  shows "(\<forall>a. closed_upto events a AREA' {}) \<and>
         (\<forall>a. LIMITED_TO_AREA (snd x) = Some a \<longrightarrow> a \<in> set (AREA' (fst x)))"
proof (cases "LIMITED_TO_AREA (snd x)")
  case None
  with assms show ?thesis by (simp add: seed_def)
next
  case (Some l)
  with assms(1) have d: "dfs events l AREA [fst x] = Inr AREA'"
    by (simp add: seed_def)
  from assms(2) have "closed_upto events l AREA (set [fst x])"
    by (simp add: closed_upto_def)
  from dfs_closed [OF d this]
  have l: "closed_upto events l AREA' {}" "l \<in> set (AREA' (fst x))"
    by simp_all
  have "closed_upto events a AREA' {}" for a
    using l(1) closed_upto_other [OF d _ assms(2) [rule_format]] by (cases "a = l") auto
  with l(2) Some show ?thesis by simp
qed

lemma seed_cases:
  assumes "seed events x AREA = Inr AREA'"
  obtains "LIMITED_TO_AREA (snd x) = None" and "AREA' = AREA"
  | l where "LIMITED_TO_AREA (snd x) = Some l" and "dfs events l AREA [fst x] = Inr AREA'"
  using assms unfolding seed_def by (cases "LIMITED_TO_AREA (snd x)") simp_all

lemma seed_mono: "seed events x AREA = Inr AREA' \<Longrightarrow> set (AREA i) \<subseteq> set (AREA' i)"
  by (erule seed_cases) (auto dest: dfs_mono)

lemma seed_distinct: "seed events x AREA = Inr AREA' \<Longrightarrow> distinct (AREA i) \<Longrightarrow> distinct (AREA' i)"
  by (erule seed_cases) (auto dest: dfs_distinct)

lemma seed_declared:
  "seed events x AREA = Inr AREA' \<Longrightarrow> a \<in> set (AREA' i) \<Longrightarrow>
     a \<in> set (AREA i) \<or> LIMITED_TO_AREA (snd x) = Some a"
proof (erule seed_cases)
  fix l
  assume "a \<in> set (AREA' i)" "LIMITED_TO_AREA (snd x) = Some l" "dfs events l AREA [fst x] = Inr AREA'"
  then show ?thesis
    using dfs_other [of events l AREA "[fst x]" AREA' a i] by (cases "a = l") auto
qed simp

lemma seeds_closed:
  "for_list xs (seed events) AREA = Inr AREA' \<Longrightarrow> \<forall>a. closed_upto events a AREA {} \<Longrightarrow>
     (\<forall>a. closed_upto events a AREA' {}) \<and>
     (\<forall>x \<in> set xs. \<forall>a. LIMITED_TO_AREA (snd x) = Some a \<longrightarrow> a \<in> set (AREA' (fst x)))"
proof (induction xs arbitrary: AREA)
  case Nil
  then show ?case by simp
next
  case (Cons x xs)
  from Cons.prems(1) obtain AREA1 where
    s: "seed events x AREA = Inr AREA1" and r: "for_list xs (seed events) AREA1 = Inr AREA'"
    by (auto split: sum.splits)
  note c = seed_closed [OF s Cons.prems(2)]
  note i = Cons.IH [OF r c [THEN conjunct1]]
  have m: "set (AREA1 j) \<subseteq> set (AREA' j)" for j
    using r
  proof (induction xs arbitrary: AREA1)
    case Nil
    then show ?case by simp
  next
    case (Cons y ys)
    then show ?case
      by (fastforce split: sum.splits dest: seed_mono)
  qed
  from c i m show ?case by auto
qed

lemma seeds_distinct:
  "for_list xs (seed events) AREA = Inr AREA' \<Longrightarrow> distinct (AREA i) \<Longrightarrow> distinct (AREA' i)"
  by (induction xs arbitrary: AREA) (auto split: sum.splits dest: seed_distinct)

lemma seeds_declared:
  "for_list xs (seed events) AREA = Inr AREA' \<Longrightarrow> a \<in> set (AREA' i) \<Longrightarrow>
     a \<in> set (AREA i) \<or> (\<exists>x \<in> set xs. LIMITED_TO_AREA (snd x) = Some a)"
proof (induction xs arbitrary: AREA)
  case Nil
  then show ?case by simp
next
  case (Cons x xs)
  from Cons.prems(1) obtain AREA1 where
    s: "seed events x AREA = Inr AREA1" and r: "for_list xs (seed events) AREA1 = Inr AREA'"
    by (auto split: sum.splits)
  from Cons.IH [OF r Cons.prems(2)] seed_declared [OF s, of a i]
  show ?case by auto
qed

lemma propagate_closed:
  assumes "propagate events = Inr AREA"
  shows "closed_upto events a AREA {}"
    and "i < length events \<Longrightarrow> LIMITED_TO_AREA (events ! i) = Some a \<Longrightarrow> a \<in> set (AREA i)"
proof -
  have "\<forall>a. closed_upto events a (\<lambda>event. []) {}"
    by (simp add: closed_upto_def)
  from seeds_closed [OF assms [unfolded propagate_def] this]
  have c: "\<forall>a. closed_upto events a AREA {}"
    and s: "\<forall>x \<in> set (enumerate 0 events). \<forall>a. LIMITED_TO_AREA (snd x) = Some a \<longrightarrow> a \<in> set (AREA (fst x))"
    by simp_all
  from c show "closed_upto events a AREA {}" by simp
  assume "i < length events" "LIMITED_TO_AREA (events ! i) = Some a"
  moreover from this have "(i, events ! i) \<in> set (enumerate 0 events)"
    by (simp add: in_set_enumerate_eq)
  ultimately show "a \<in> set (AREA i)"
    using s by fastforce
qed

lemma closed_reachable:
  assumes "closed_upto events a AREA {}" and "(i, j) \<in> (linked events)\<^sup>*" and "a \<in> set (AREA i)"
  shows "a \<in> set (AREA j)"
  using assms(2,3)
proof (induction rule: rtrancl_induct)
  case base
  then show ?case .
next
  case (step j k)
  with assms(1) show ?case by (simp add: closed_upto_def)
qed

lemma propagate_distinct: "propagate events = Inr AREA \<Longrightarrow> distinct (AREA i)"
  unfolding propagate_def by (drule seeds_distinct [where i = i]) simp_all

lemma propagate_declared:
  assumes "propagate events = Inr AREA" and "a \<in> set (AREA i)"
  shows "\<exists>j < length events. LIMITED_TO_AREA (events ! j) = Some a"
proof -
  from seeds_declared [OF assms(1) [unfolded propagate_def] assms(2)]
  obtain x where x: "x \<in> set (enumerate 0 events)" "LIMITED_TO_AREA (snd x) = Some a"
    by auto
  from x(1) have "fst x < length events \<and> snd x = events ! fst x"
    by (simp add: in_set_enumerate_eq)
  with x(2) show ?thesis by auto
qed

subsection \<open>Only origin ids that reach an event are in its list\<close>

lemma dfs_sound:
  assumes "dfs events a AREA stack = Inr AREA'"
    and "\<forall>e \<in> set stack. e \<in> R \<and> e < length events"
    and "\<forall>i j. (i, j) \<in> linked events \<longrightarrow> i \<in> R \<longrightarrow> j \<in> R"
    and "a \<in> set (AREA' i)"
  shows "a \<in> set (AREA i) \<or> i \<in> R"
  using assms
proof (induction events a AREA stack rule: dfs.induct)
  case (1 events limit_id AREA)
  then show ?case by (simp add: dfs.simps)
next
  case (2 events limit_id AREA event stack)
  show ?case
  proof (cases "limit_id \<in> set (AREA event)")
    case True
    with "2.prems" have d: "dfs events limit_id AREA stack = Inr AREA'"
      by (simp add: dfs.simps)
    from "2.IH"(1) [OF True d _ "2.prems"(3,4)] "2.prems"(2) show ?thesis by simp
  next
    case False
    with "2.prems" obtain stack' where
      s: "for_gen (ForEachBranch (events ! event)) (push_link events) stack = Inr stack'" and
      d: "dfs events limit_id (AREA(event := AREA event @ [limit_id])) stack' = Inr AREA'"
      by (auto simp add: dfs.simps split: sum.splits)
    from "2.prems"(2) have e: "event \<in> R" "event < length events" by simp_all
    from for_gen_push_link [OF s] have n: "snd (ForEachBranch (events ! event)) = None"
      and st: "set stack' = set stack \<union> links_of events (fst (ForEachBranch (events ! event)))"
      by simp_all
    have "j \<in> R \<and> j < length events" if "j \<in> links_of events (fst (ForEachBranch (events ! event)))" for j
    proof -
      from that ForEachBranch_yields [OF n] e(2) have "(event, j) \<in> linked events"
        by (auto simp add: linked_def links_of_def)
      with "2.prems"(3) e(1) links_of_range [OF that] show ?thesis by blast
    qed
    with st "2.prems"(2) have "\<forall>e \<in> set stack'. e \<in> R \<and> e < length events"
      by auto
    from "2.IH"(2) [OF False s d this "2.prems"(3,4)] e(1) show ?thesis
      by (cases "i = event") auto
  qed
qed

lemma seed_sound:
  assumes "seed events x AREA = Inr AREA'" and "x \<in> set (enumerate 0 events)"
    and "\<forall>j. set (AREA j) \<subseteq> origins_reaching events j"
  shows "\<forall>j. set (AREA' j) \<subseteq> origins_reaching events j"
  using assms(1)
proof (rule seed_cases)
  assume "AREA' = AREA"
  with assms(3) show ?thesis by simp
next
  fix l
  assume l: "LIMITED_TO_AREA (snd x) = Some l" and d: "dfs events l AREA [fst x] = Inr AREA'"
  from assms(2) have x: "fst x < length events" "snd x = events ! fst x"
    by (simp_all add: in_set_enumerate_eq)
  define R where "R = {j. (fst x, j) \<in> (linked events)\<^sup>*}"
  have r: "\<forall>e \<in> set [fst x]. e \<in> R \<and> e < length events"
    using x(1) by (simp add: R_def)
  have c: "\<forall>i j. (i, j) \<in> linked events \<longrightarrow> i \<in> R \<longrightarrow> j \<in> R"
    by (auto simp add: R_def intro: rtrancl_into_rtrancl)
  show ?thesis
  proof (intro allI subsetI)
    fix j b
    assume b: "b \<in> set (AREA' j)"
    show "b \<in> origins_reaching events j"
    proof (cases "b = l")
      case True
      with dfs_sound [OF d r c, of j] b have "l \<in> set (AREA j) \<or> j \<in> R" by simp
      then show ?thesis
      proof
        assume "l \<in> set (AREA j)"
        with assms(3) True show ?thesis by auto
      next
        assume "j \<in> R"
        with x l True show ?thesis
          by (auto simp add: origins_reaching_def R_def)
      qed
    next
      case False
      with dfs_other [OF d False, of j] b assms(3) show ?thesis by auto
    qed
  qed
qed

lemma propagate_sound:
  assumes "propagate events = Inr AREA"
  shows "set (AREA j) \<subseteq> origins_reaching events j"
proof -
  have "\<forall>j. set (AREA j) \<subseteq> origins_reaching events j"
    using assms [unfolded propagate_def]
  proof (rule for_list_invariant [where P = "\<lambda>AREA. \<forall>j. set (AREA j) \<subseteq> origins_reaching events j"])
    show "\<forall>j. set [] \<subseteq> origins_reaching events j" by simp
  next
    fix x t t'
    assume "x \<in> set (enumerate 0 events)" "\<forall>j. set (t j) \<subseteq> origins_reaching events j"
      "seed events x t = Inr t'"
    then show "\<forall>j. set (t' j) \<subseteq> origins_reaching events j"
      using seed_sound by blast
  qed
  then show ?thesis by simp
qed

lemma propagate_exact:
  assumes "propagate events = Inr AREA"
  shows "set (AREA j) = origins_reaching events j"
proof
  show "set (AREA j) \<subseteq> origins_reaching events j"
    using assms by (rule propagate_sound)
  show "origins_reaching events j \<subseteq> set (AREA j)"
    using closed_reachable [OF propagate_closed(1) [OF assms]] propagate_closed(2) [OF assms]
    by (auto simp add: origins_reaching_def)
qed

subsection \<open>A table without corrupt input is propagated to the end\<close>

lemma dom_index_by_id: "dom (index_by_id n items m) = dom m \<union> ID ` set items"
  by (induction items arbitrary: n m) auto

lemma EVENTS_MAP_total: "k \<in> ID ` set events \<Longrightarrow> \<exists>j. EVENTS_MAP events k = Some j"
  using dom_index_by_id [of 0 events Map.empty] by (auto simp add: EVENTS_MAP_def)

lemma push_links_total:
  "\<forall>outcome \<in> set outcomes. \<forall>k. LINK_TO_EVENT outcome = Some k \<longrightarrow> k \<in> ID ` set events \<Longrightarrow>
     \<exists>stack'. for_list outcomes (push_link events) stack = Inr stack'"
proof (induction outcomes arbitrary: stack)
  case Nil
  then show ?case by simp
next
  case (Cons outcome outcomes)
  have "\<exists>stack1. push_link events outcome stack = Inr stack1"
  proof (cases "LINK_TO_EVENT outcome")
    case None
    then show ?thesis by (simp add: push_link_def)
  next
    case (Some k)
    with Cons.prems have "k \<in> ID ` set events" by simp
    from EVENTS_MAP_total [OF this] Some show ?thesis
      by (auto simp add: push_link_def)
  qed
  then obtain stack1 where s: "push_link events outcome stack = Inr stack1" ..
  from Cons.prems have "\<exists>stack'. for_list outcomes (push_link events) stack1 = Inr stack'"
    by (intro Cons.IH) simp
  with s show ?case by simp
qed

lemma walker_total:
  assumes "well_linked events" and "event \<in> set events"
  shows "\<exists>stack'. for_gen (ForEachBranch event) (push_link events) stack = Inr stack'"
proof -
  from assms have n: "snd (ForEachBranch event) = None"
    by (simp add: ForEachBranch_def walk_slots_clean set_branch_slots well_linked_def)
  from assms ForEachBranch_yields [OF n]
  have "\<forall>outcome \<in> set (fst (ForEachBranch event)). \<forall>k.
      LINK_TO_EVENT outcome = Some k \<longrightarrow> k \<in> ID ` set events"
    by (simp add: well_linked_def)
  from push_links_total [OF this, of stack] n show ?thesis
    by (auto simp add: for_gen_def)
qed

lemma dfs_total:
  "well_linked events \<Longrightarrow> \<forall>e \<in> set stack. e < length events \<Longrightarrow>
     \<exists>AREA'. dfs events a AREA stack = Inr AREA'"
proof (induction events a AREA stack rule: dfs.induct)
  case (1 events limit_id AREA)
  show ?case by (simp add: dfs.simps)
next
  case (2 events limit_id AREA event stack)
  show ?case
  proof (cases "limit_id \<in> set (AREA event)")
    case True
    with 2 show ?thesis by (simp add: dfs.simps)
  next
    case False
    from "2.prems" have "events ! event \<in> set events" by simp
    from walker_total [OF "2.prems"(1) this, of stack] obtain stack' where
      s: "for_gen (ForEachBranch (events ! event)) (push_link events) stack = Inr stack'" ..
    from for_gen_push_link [OF s] "2.prems"(2) have "\<forall>e \<in> set stack'. e < length events"
      by (auto dest: links_of_range)
    from "2.IH"(2) [OF False s "2.prems"(1) this] obtain AREA' where
      "dfs events limit_id (AREA(event := AREA event @ [limit_id])) stack' = Inr AREA'" ..
    moreover have "dfs events limit_id AREA (event # stack) =
        dfs events limit_id (AREA(event := AREA event @ [limit_id])) stack'"
      using False s by (simp add: dfs.simps)
    ultimately show ?thesis by (simp only:) blast
  qed
qed

lemma seeds_total:
  "well_linked events \<Longrightarrow> \<forall>x \<in> set xs. fst x < length events \<Longrightarrow>
     \<exists>AREA'. for_list xs (seed events) AREA = Inr AREA'"
proof (induction xs arbitrary: AREA)
  case Nil
  show ?case by simp
next
  case (Cons x xs)
  have "\<exists>AREA1. seed events x AREA = Inr AREA1"
  proof (cases "LIMITED_TO_AREA (snd x)")
    case None
    then show ?thesis by (simp add: seed_def)
  next
    case (Some limit_id)
    from Cons.prems have "\<forall>e \<in> set [fst x]. e < length events" by simp
    from dfs_total [OF Cons.prems(1) this] Some show ?thesis
      by (simp add: seed_def)
  qed
  then obtain AREA1 where s: "seed events x AREA = Inr AREA1" ..
  from Cons.prems have "\<exists>AREA'. for_list xs (seed events) AREA1 = Inr AREA'"
    by (intro Cons.IH) simp_all
  with s show ?case by simp
qed

lemma propagate_total: "well_linked events \<Longrightarrow> \<exists>AREA. propagate events = Inr AREA"
  unfolding propagate_def by (rule seeds_total) (simp_all add: in_set_enumerate_eq)

subsection \<open>One origin id\<close>

lemma dfs_fresh:
  assumes "dfs events a (\<lambda>event. []) [E] = Inr AREA" and "(E, j) \<in> (linked events)\<^sup>*"
  shows "AREA j = [a]"
proof -
  have "closed_upto events a (\<lambda>event. []) (set [E])"
    by (simp add: closed_upto_def)
  from dfs_closed [OF assms(1) this]
  have "closed_upto events a AREA {}" "a \<in> set (AREA E)" by simp_all
  then have "a \<in> set (AREA j)"
    using closed_reachable [OF _ assms(2)] by blast
  with dfs_appends [OF assms(1), of j] show ?thesis by auto
qed

lemma distinct_singleton:
  assumes "distinct xs" and "set xs = {a}"
  shows "xs = [a]"
proof (cases xs)
  case Nil
  with assms(2) show ?thesis by simp
next
  case (Cons x ys)
  with assms(2) have x: "x = a" and y: "set ys \<subseteq> {a}" by auto
  from Cons assms(1) x have "a \<notin> set ys" by simp
  with y have "ys = []" by (cases ys) auto
  with Cons x show ?thesis by simp
qed

lemma single_origin:
  assumes "propagate events = Inr AREA"
    and "\<forall>i < length events. LIMITED_TO_AREA (events ! i) = None \<or> LIMITED_TO_AREA (events ! i) = Some a"
    and "E < length events" and "LIMITED_TO_AREA (events ! E) = Some a"
    and "(E, j) \<in> (linked events)\<^sup>*"
  shows "AREA j = [a]"
proof -
  have "a \<in> set (AREA j)"
    using closed_reachable [OF propagate_closed(1) [OF assms(1)] assms(5)]
      propagate_closed(2) [OF assms(1,3,4)] by simp
  moreover have "\<forall>b \<in> set (AREA j). b = a"
  proof
    fix b assume "b \<in> set (AREA j)"
    from propagate_declared [OF assms(1) this] assms(2) show "b = a" by auto
  qed
  ultimately have "set (AREA j) = {a}" by blast
  moreover have "distinct (AREA j)"
    using assms(1) by (rule propagate_distinct)
  ultimately show ?thesis
    by (intro distinct_singleton)
qed

subsection \<open>The fixtures\<close>

lemma chain_runs: "\<exists>AREA. propagate chain_events = Inr AREA"
  by (simp add: chain_events_def InitGlobals_simps)

lemma chain_linked: "(0, 1) \<in> linked chain_events" "(1, 2) \<in> linked chain_events"
  by (simp_all add: linked_def chain_events_def outcomes_of_def EVENTS_MAP_def)

lemma two_cycle_cycle_events: "two_cycle (cycle_events origin2)"
  by (simp add: two_cycle_def cycle_events_def linked_def outcomes_of_def EVENTS_MAP_def)

lemma cycle_events_well_linked: "well_linked (cycle_events origin2)"
  by (simp add: well_linked_def cycle_events_def outcomes_of_def)

section \<open>Properties of the shop phases\<close>

lemma index_by_id_sound:
  "index_by_id n items m k = Some r \<Longrightarrow>
     m k = Some r \<or> (n \<le> r \<and> r < n + length items \<and> ID (items ! (r - n)) = k)"
proof (induction items arbitrary: n m)
  case Nil
  then show ?case by simp
next
  case (Cons item items)
  from Cons.prems have "index_by_id (Suc n) items (m(ID item \<mapsto> n)) k = Some r"
    by simp
  then have "(m(ID item \<mapsto> n)) k = Some r \<or>
      (Suc n \<le> r \<and> r < Suc n + length items \<and> ID (items ! (r - Suc n)) = k)"
    by (rule Cons.IH)
  then show ?case
  proof
    assume "(m(ID item \<mapsto> n)) k = Some r"
    then show ?thesis by (cases "k = ID item") auto
  next
    assume a: "Suc n \<le> r \<and> r < Suc n + length items \<and> ID (items ! (r - Suc n)) = k"
    then have "r - n = Suc (r - Suc n)" by arith
    with a show ?thesis by simp
  qed
qed

lemma AREAS_MAP_sound:
  "AREAS_MAP areas k = Some r \<Longrightarrow> r < length areas \<and> ID (areas ! r) = k"
  unfolding AREAS_MAP_def by (drule index_by_id_sound) simp

lemma map_ok_AREAS_MAP: "map_ok (AREAS_MAP AREAS) (map ID AREAS)"
  by (auto simp add: map_ok_def dest: AREAS_MAP_sound)

lemma ids_update:
  assumes "ID (f (areas ! r)) = ID (areas ! r)"
  shows "map ID (areas[r := f (areas ! r)]) = map ID areas"
proof (cases "r < length areas")
  case True
  then have "(map ID areas)[r := map ID areas ! r] = map ID areas"
    by (simp only: list_update_id)
  with True assms show ?thesis by (simp add: map_update)
next
  case False
  then show ?thesis by (simp add: list_update_beyond not_less)
qed

lemma map_ok_nth:
  assumes "map_ok amap (map ID areas)" and "amap k = Some r"
  shows "r < length areas" and "ID (areas ! r) = k"
proof -
  from assms have r: "r < length areas \<and> map ID areas ! r = k"
    unfolding map_ok_def length_map by blast
  then show "r < length areas" by simp
  show "ID (areas ! r) = k"
    using r nth_map [of r areas ID] by auto
qed

lemma AddShopInfo_ok:
  assumes "AddShopInfo areas grp area shops = Inr shops'"
    and "shops_ok amap (map ID areas) shops"
    and "area < length areas"
    and "amap (ID (areas ! area)) = Some area"
  shows "shops_ok amap (map ID areas) shops'"
proof (cases "ID (areas ! area) = LIMBO")
  case True
  with assms(1,2) show ?thesis by (simp add: AddShopInfo_def)
next
  case False
  with assms(1) obtain "value" where v: "shops (ID grp) = Some value"
    by (auto simp add: AddShopInfo_def split: option.splits)
  show ?thesis
  proof (cases "area_in areas area value")
    case True
    with assms(1,2) False v show ?thesis by (simp add: AddShopInfo_def)
  next
    case n: False
    then have "area \<notin> set value"
      by (auto simp add: area_in_def list_ex_iff)
    moreover from assms(1) False v n have "shops' = shops(ID grp \<mapsto> value @ [area])"
      by (simp add: AddShopInfo_def)
    moreover have "area < length (map ID areas)" "map ID areas ! area \<noteq> LIMBO"
      "amap (map ID areas ! area) = Some area"
      using assms(3,4) False by simp_all
    ultimately show ?thesis
      using assms(2) v unfolding shops_ok_def by (auto simp del: nth_map length_map)
  qed
qed

lemma static_port_ok:
  assumes "static_port amap settings_map port s = Inr s'"
    and "map_ok amap ids" and "state_ok amap ids s"
  shows "state_ok amap ids s'"
proof -
  from assms(1) obtain area where a: "amap (PORT_AREA port) = Some area"
    by (auto simp add: static_port_def split: option.splits)
  define areas where "areas = (fst s)[area := (fst s ! area)\<lparr>SUBSURFACE := Some (PORT_SUBSURFACE port)\<rparr>]"
  have i: "map ID areas = ids"
    using assms(3) unfolding areas_def state_ok_def
    by (simp add: ids_update [where f = "\<lambda>a. a\<lparr>SUBSURFACE := Some (PORT_SUBSURFACE port)\<rparr>"])
  from a assms(2) i have r: "area < length areas" "ID (areas ! area) = PORT_AREA port"
    by (auto dest: map_ok_nth)
  show ?thesis
  proof (cases "settings_map (SETTING port)")
    case None
    with assms(1) a have "s' = (areas, snd s)"
      by (simp add: static_port_def areas_def)
    with i assms(3) show ?thesis by (simp add: state_ok_def)
  next
    case (Some grp)
    with assms(1) a obtain shops where
      h: "AddShopInfo areas grp area (snd s) = Inr shops" and s': "s' = (areas, shops)"
      by (auto simp add: static_port_def areas_def Let_def split: sum.splits)
    with AddShopInfo_ok [OF h, of amap] assms(3) i a r s' show ?thesis
      by (simp add: state_ok_def)
  qed
qed

lemma static_tile_ok:
  assumes "static_tile amap settings_map tile s = Inr s'"
    and "map_ok amap ids" and "state_ok amap ids s"
  shows "state_ok amap ids s'"
proof (cases "TILES tile")
  case Nil
  with assms(1,3) show ?thesis by (simp add: static_tile_def)
next
  case (Cons entry rest)
  with assms(1) have "for_list (PORT_DATA entry) (static_port amap settings_map) s = Inr s'"
    by (simp add: static_tile_def)
  then show ?thesis
    using assms(3)
    by (rule for_list_invariant [where P = "state_ok amap ids"]) (rule static_port_ok [OF _ assms(2)])
qed

lemma add_event_area_ok:
  assumes "add_event_area amap areas grp area_id shops = Inr shops'"
    and "map_ok amap (map ID areas)" and "shops_ok amap (map ID areas) shops"
  shows "shops_ok amap (map ID areas) shops'"
proof -
  from assms(1) obtain area where a: "amap area_id = Some area"
    and h: "AddShopInfo areas grp area shops = Inr shops'"
    by (auto simp add: add_event_area_def split: option.splits)
  from a assms(2) have "area < length areas" "ID (areas ! area) = area_id"
    by (auto dest: map_ok_nth)
  with AddShopInfo_ok [OF h assms(3)] a show ?thesis by simp
qed

lemma dynamic_outcome_ok:
  assumes "dynamic_outcome amap settings_map areas event_area outcome shops = Inr shops'"
    and "map_ok amap (map ID areas)" and "shops_ok amap (map ID areas) shops"
  shows "shops_ok amap (map ID areas) shops'"
proof (cases "SWITCH_TO_SETTING outcome")
  case None
  with assms(1,3) show ?thesis by (simp add: dynamic_outcome_def)
next
  case (Some setting)
  with assms(1) obtain grp where
    "for_list event_area (add_event_area amap areas grp) shops = Inr shops'"
    by (auto simp add: dynamic_outcome_def split: option.splits)
  then show ?thesis
    using assms(3)
    by (rule for_list_invariant [where P = "shops_ok amap (map ID areas)"])
      (rule add_event_area_ok [OF _ assms(2)])
qed

lemma dynamic_event_ok:
  assumes "dynamic_event amap settings_map areas AREA x shops = Inr shops'"
    and "map_ok amap (map ID areas)" and "shops_ok amap (map ID areas) shops"
  shows "shops_ok amap (map ID areas) shops'"
  using assms(1) [unfolded dynamic_event_def] assms(3)
  by (rule for_gen_invariant [where P = "shops_ok amap (map ID areas)"])
    (rule dynamic_outcome_ok [OF _ assms(2)])

lemma add_groups_empty:
  "fst (fold add_group EXCHANGES s) gid = Some value \<Longrightarrow> value = [] \<or> fst s gid = Some value"
proof (induction EXCHANGES arbitrary: s)
  case Nil
  then show ?case by simp
next
  case (Cons grp EXCHANGES)
  from Cons.prems have "fst (fold add_group EXCHANGES (add_group grp s)) gid = Some value"
    by simp
  then have "value = [] \<or> fst (add_group grp s) gid = Some value"
    by (rule Cons.IH)
  then show ?case
    by (auto simp add: add_group_def split: if_splits)
qed

lemma join_settings_ok: "shops_ok amap ids (fst (join_settings EXCHANGES))"
  unfolding shops_ok_def join_settings_def by (auto dest: add_groups_empty)

lemma shop_phases_ok:
  assumes "shop_phases amap areas EVENTS AREA EXCHANGES TILES_DATA = Inr s'"
    and "map_ok amap (map ID areas)"
  shows "state_ok amap (map ID areas) s'"
proof -
  define settings_map where "settings_map = snd (join_settings EXCHANGES)"
  from assms(1) obtain s shops where
    st: "for_list TILES_DATA (static_tile amap settings_map) (areas, fst (join_settings EXCHANGES)) = Inr s"
    and dy: "for_list (enumerate 0 EVENTS) (dynamic_event amap settings_map (fst s) AREA) (snd s) = Inr shops"
    and s': "s' = (fst s, shops)"
    by (auto simp add: shop_phases_def settings_map_def Let_def split: sum.splits)
  have "state_ok amap (map ID areas) (areas, fst (join_settings EXCHANGES))"
    by (simp add: state_ok_def join_settings_ok)
  with st have s: "state_ok amap (map ID areas) s"
    by (rule for_list_invariant [where P = "state_ok amap (map ID areas)"])
      (rule static_tile_ok [OF _ assms(2)])
  then have i: "map ID (fst s) = map ID areas" and o: "shops_ok amap (map ID (fst s)) (snd s)"
    by (simp_all add: state_ok_def)
  from assms(2) i have m: "map_ok amap (map ID (fst s))" by simp
  from dy o have "shops_ok amap (map ID (fst s)) shops"
    by (rule for_list_invariant [where P = "shops_ok amap (map ID (fst s))"])
      (rule dynamic_event_ok [OF _ m])
  with i s' show ?thesis by (simp add: state_ok_def)
qed

lemma rename_area_ids: "rename_area amap fix areas = Inr areas' \<Longrightarrow> map ID areas' = map ID areas"
  by (auto simp add: rename_area_def ids_update [where f = "\<lambda>a. a\<lparr>NAME := Some (snd fix)\<rparr>"]
      split: option.splits)

lemma init_areas_ids: "init_areas AREAS = Inr areas \<Longrightarrow> map ID areas = map ID AREAS"
proof -
  assume "init_areas AREAS = Inr areas"
  then have "for_list [(100374, ''Venderbight''), (101981, ''The Chelonate''),
               (102000, ''Polythreme''), (102960, ''The Uttershroom'')]
       (rename_area (AREAS_MAP AREAS)) (map (\<lambda>item. item\<lparr>SUBSURFACE := None\<rparr>) AREAS) = Inr areas"
    by (simp add: init_areas_def)
  then show ?thesis
    by (rule for_list_invariant [where P = "\<lambda>areas. map ID areas = map ID AREAS"])
      (simp_all add: rename_area_ids comp_def)
qed

lemma InitGlobals_ok:
  assumes "InitGlobals AREAS QUALITIES EVENTS EXCHANGES TILES_DATA = Inr g"
  shows "state_ok (AREAS_MAP AREAS) (map ID AREAS) (G_AREAS g, G_SHOP_AREAS g)"
proof -
  from assms obtain areas AREA s where
    a: "init_areas AREAS = Inr areas"
    and s: "shop_phases (AREAS_MAP AREAS) areas EVENTS AREA EXCHANGES TILES_DATA = Inr s"
    and g: "G_AREAS g = fst s" "G_SHOP_AREAS g = snd s"
    by (auto simp add: InitGlobals_def split: sum.splits)
  from init_areas_ids [OF a] map_ok_AREAS_MAP [of AREAS]
  have "map_ok (AREAS_MAP AREAS) (map ID areas)" "map ID areas = map ID AREAS"
    by simp_all
  with shop_phases_ok [OF s] g show ?thesis by simp
qed

lemma state_ok_limbo_free: "state_ok amap ids (areas, shops) \<Longrightarrow> limbo_free areas shops"
proof -
  assume a: "state_ok amap ids (areas, shops)"
  then have i: "ids = map ID areas" by (simp add: state_ok_def)
  show ?thesis
    unfolding limbo_free_def
  proof (intro allI impI ballI)
    fix gid "value" area
    assume "shops gid = Some value" "area \<in> set value"
    with a have "area < length ids \<and> ids ! area \<noteq> LIMBO"
      by (simp add: state_ok_def shops_ok_def)
    then show "area < length areas \<and> ID (areas ! area) \<noteq> LIMBO"
      by (auto simp add: i)
  qed
qed

lemma AddShopInfo_limbo_free:
  assumes "AddShopInfo areas grp area shops = Inr shops'"
    and "area < length areas" and "limbo_free areas shops"
  shows "limbo_free areas shops'"
proof (cases "ID (areas ! area) = LIMBO")
  case True
  with assms(1,3) show ?thesis by (simp add: AddShopInfo_def)
next
  case False
  with assms(1) obtain "value" where v: "shops (ID grp) = Some value"
    and s: "shops' = shops \<or> shops' = shops(ID grp \<mapsto> value @ [area])"
    by (auto simp add: AddShopInfo_def split: option.splits if_splits)
  from s show ?thesis
  proof
    assume "shops' = shops"
    with assms(3) show ?thesis by simp
  next
    assume "shops' = shops(ID grp \<mapsto> value @ [area])"
    with assms(2,3) v False show ?thesis
      by (auto simp add: limbo_free_def)
  qed
qed

lemma state_ok_distinct:
  assumes "state_ok amap ids (areas, shops)" and "shops gid = Some value"
  shows "distinct value" and "distinct (map (\<lambda>area. ID (areas ! area)) value)"
proof -
  from assms have d: "distinct value"
    and r: "\<forall>r \<in> set value. r < length ids \<and> amap (ids ! r) = Some r"
    and i: "ids = map ID areas"
    by (auto simp add: state_ok_def shops_ok_def)
  from d show "distinct value" .
  have "inj_on (\<lambda>area. ids ! area) (set value)"
  proof (rule inj_onI)
    fix x y
    assume "x \<in> set value" "y \<in> set value" "ids ! x = ids ! y"
    with r have "Some x = Some y" by metis
    then show "x = y" by simp
  qed
  with d have "distinct (map (\<lambda>area. ids ! area) value)"
    by (simp add: distinct_map)
  moreover have "map (\<lambda>area. ids ! area) value = map (\<lambda>area. ID (areas ! area)) value"
    using r by (simp add: i)
  ultimately show "distinct (map (\<lambda>area. ID (areas ! area)) value)" by simp
qed

subsection \<open>Runs that end in an error\<close>

lemma add_group_settings:
  "snd (add_group grp s) setting = None \<longleftrightarrow> snd s setting = None \<and> setting \<notin> set (SETTING_IDS grp)"
proof -
  have "fold (\<lambda>setting settings_map. settings_map(setting \<mapsto> grp)) ids m setting = None \<longleftrightarrow>
      m setting = None \<and> setting \<notin> set ids" for ids and m :: "int \<rightharpoonup> exchange_group"
    by (induction ids arbitrary: m) auto
  then show ?thesis by (simp add: add_group_def)
qed

lemma join_settings_None:
  "snd (join_settings EXCHANGES) setting = None \<longleftrightarrow>
     (\<forall>grp \<in> set EXCHANGES. setting \<notin> set (SETTING_IDS grp))"
proof -
  have "snd (fold add_group EXCHANGES s) setting = None \<longleftrightarrow>
      snd s setting = None \<and> (\<forall>grp \<in> set EXCHANGES. setting \<notin> set (SETTING_IDS grp))" for s
    by (induction EXCHANGES arbitrary: s) (auto simp add: add_group_settings)
  then show ?thesis by (simp add: join_settings_def)
qed

lemma dynamic_outcome_unjoined:
  "SWITCH_TO_SETTING outcome = Some setting \<Longrightarrow> settings_map setting = None \<Longrightarrow>
     dynamic_outcome amap settings_map areas event_area outcome shops = Inl (KeyError setting)"
  by (simp add: dynamic_outcome_def)

lemma dynamic_event_unjoined:
  assumes "outcome \<in> outcomes_of (snd x)" and "SWITCH_TO_SETTING outcome = Some setting"
    and "settings_map setting = None"
  shows "\<exists>e. dynamic_event amap settings_map areas AREA x shops = Inl e"
  unfolding dynamic_event_def
proof (rule for_gen_fails)
  assume "snd (ForEachBranch (snd x)) = None"
  with assms(1) show "outcome \<in> set (fst (ForEachBranch (snd x)))"
    by (simp add: ForEachBranch_yields)
next
  fix t
  show "\<exists>e. dynamic_outcome amap settings_map areas (AREA (fst x)) outcome t = Inl e"
    using assms(2,3) by (simp add: dynamic_outcome_unjoined)
qed

lemma InitGlobals_dynamic_fails:
  assumes "x \<in> set (enumerate 0 EVENTS)"
    and "\<And>amap areas AREA shops.
      \<exists>e. dynamic_event amap (snd (join_settings EXCHANGES)) areas AREA x shops = Inl e"
  shows "\<exists>e. InitGlobals AREAS QUALITIES EVENTS EXCHANGES TILES_DATA = Inl e"
proof -
  have d: "\<exists>e. for_list (enumerate 0 EVENTS)
      (dynamic_event amap (snd (join_settings EXCHANGES)) areas AREA) shops = Inl e"
    for amap areas AREA shops
    using assms(1) by (rule for_list_fails) (rule assms(2))
  have p: "\<exists>e. shop_phases amap areas EVENTS AREA EXCHANGES TILES_DATA = Inl e" for amap areas AREA
  proof (cases "for_list TILES_DATA (static_tile amap (snd (join_settings EXCHANGES)))
      (areas, fst (join_settings EXCHANGES))")
    case (Inl e)
    then show ?thesis by (simp add: shop_phases_def)
  next
    case (Inr s)
    with d [of amap "fst s" AREA "snd s"] show ?thesis
      by (auto simp add: shop_phases_def)
  qed
  show ?thesis
  proof (cases "init_areas AREAS")
    case (Inl e)
    then show ?thesis by (simp add: InitGlobals_def)
  next
    case a: (Inr areas)
    show ?thesis
    proof (cases "for_list QUALITIES add_quality BAD_QUALITIES")
      case (Inl e)
      with a show ?thesis by (simp add: InitGlobals_def)
    next
      case q: (Inr bad)
      show ?thesis
      proof (cases "propagate EVENTS")
        case (Inl e)
        with a q show ?thesis by (simp add: InitGlobals_def)
      next
        case (Inr AREA)
        with a q p [of "AREAS_MAP AREAS" areas AREA] show ?thesis
          by (auto simp add: InitGlobals_def)
      qed
    qed
  qed
qed

lemma in_enumerate: "event \<in> set EVENTS \<Longrightarrow> \<exists>i. (i, event) \<in> set (enumerate 0 EVENTS)"
proof -
  assume "event \<in> set EVENTS"
  then obtain i where "i < length EVENTS" "EVENTS ! i = event"
    by (auto simp add: in_set_conv_nth)
  then have "(i, event) \<in> set (enumerate 0 EVENTS)"
    by (simp add: in_set_enumerate_eq)
  then show ?thesis ..
qed

lemma InitGlobals_unjoined:
  assumes "event \<in> set EVENTS" and "outcome \<in> outcomes_of event"
    and "SWITCH_TO_SETTING outcome = Some setting"
    and "\<forall>grp \<in> set EXCHANGES. setting \<notin> set (SETTING_IDS grp)"
  shows "\<exists>e. InitGlobals AREAS QUALITIES EVENTS EXCHANGES TILES_DATA = Inl e"
proof -
  from assms(4) have n: "snd (join_settings EXCHANGES) setting = None"
    by (simp add: join_settings_None)
  from in_enumerate [OF assms(1)] obtain i where i: "(i, event) \<in> set (enumerate 0 EVENTS)" ..
  then show ?thesis
  proof (rule InitGlobals_dynamic_fails)
    fix amap areas AREA shops
    show "\<exists>e. dynamic_event amap (snd (join_settings EXCHANGES)) areas AREA (i, event) shops = Inl e"
      using assms(2,3) n
      by (intro dynamic_event_unjoined [where outcome = outcome and setting = setting]) simp_all
  qed
qed

lemma InitGlobals_nested:
  assumes "event \<in> set EVENTS" and "snd (ForEachBranch event) = Some e"
  shows "\<exists>e'. InitGlobals AREAS QUALITIES EVENTS EXCHANGES TILES_DATA = Inl e'"
proof -
  from in_enumerate [OF assms(1)] obtain i where i: "(i, event) \<in> set (enumerate 0 EVENTS)" ..
  then show ?thesis
  proof (rule InitGlobals_dynamic_fails)
    fix amap areas AREA shops
    show "\<exists>e. dynamic_event amap (snd (join_settings EXCHANGES)) areas AREA (i, event) shops = Inl e"
      unfolding dynamic_event_def using assms(2) by (intro for_gen_error) simp
  qed
qed

subsection \<open>The fixture\<close>

lemma shop_fixture_runs:
  "case InitGlobals shop_AREAS [] shop_EVENTS shop_EXCHANGES shop_TILES of
     Inl e \<Rightarrow> False
   | Inr g \<Rightarrow> G_SHOP_AREAS g 900 = Some [0, 2]"
  by (simp add: shop_fixture InitGlobals_simps)

lemma shop_fixture_result:
  "\<exists>g. InitGlobals shop_AREAS [] shop_EVENTS shop_EXCHANGES shop_TILES = Inr g \<and>
     G_SHOP_AREAS g 900 = Some [0, 2]"
  using shop_fixture_runs
  by (cases "InitGlobals shop_AREAS [] shop_EVENTS shop_EXCHANGES shop_TILES") simp_all

section \<open>The claims\<close>

text \<open>
  C1. When the propagation has run to its end, the origin area id of an event is in the
  derived list of every event that a chain of \<open>LinkToEvent\<close> references leads to
  from it (\<open>linked\<close>: one such reference, resolved through \<open>EVENTS_MAP\<close>).
\<close>

theorem reachable_events_tagged:
  assumes "propagate events = Inr AREA"
    and "E1 < length events"
    and "LIMITED_TO_AREA (events ! E1) = Some A"
    and "(E1, E2) \<in> (linked events)\<^sup>*"
  shows "A \<in> set (AREA E2)"
  using closed_reachable [OF propagate_closed(1) [OF assms(1)] assms(4)]
    propagate_closed(2) [OF assms(1,2,3)] by simp

theorem reachable_events_tagged_witness:
  "\<exists>AREA. propagate chain_events = Inr AREA \<and> 5 \<in> set (AREA 2)"
proof -
  obtain AREA where p: "propagate chain_events = Inr AREA"
    using chain_runs by blast
  have l: "(0, 2) \<in> (linked chain_events)\<^sup>*"
    using chain_linked by (meson rtrancl.rtrancl_into_rtrancl rtrancl.rtrancl_refl)
  have "5 \<in> set (AREA 2)"
    by (rule reachable_events_tagged [OF p _ _ l]) (simp_all add: chain_events_def)
  with p show ?thesis by blast
qed

text \<open>
  C2. When the propagation has run to its end, the derived list of an event that has an
  origin area contains that area's id.
\<close>

theorem seed_event_tagged:
  assumes "propagate events = Inr AREA"
    and "E < length events"
    and "LIMITED_TO_AREA (events ! E) = Some A"
  shows "A \<in> set (AREA E)"
  using assms by (rule propagate_closed(2))

theorem seed_event_tagged_witness:
  "\<exists>AREA. propagate chain_events = Inr AREA \<and> 5 \<in> set (AREA 0)"
proof -
  obtain AREA where p: "propagate chain_events = Inr AREA"
    using chain_runs by blast
  have "5 \<in> set (AREA 0)"
    by (rule seed_event_tagged [OF p]) (simp_all add: chain_events_def)
  with p show ?thesis by blast
qed

text \<open>
  C3, amended. The traversal is a total function (\<open>dfs\<close>, by the termination proof
  above: each step either marks an unmarked event or shortens the stack). Popping an
  event that already has the origin id changes nothing. When the phase has run to its
  end, the list of an event holds, once each, the origin ids of the events that reach it.
  A table without nested branches and dangling links is propagated to the end, cycles or
  not. On two events that link to each other, one traversal leaves exactly the origin id
  in both lists, which is also what the whole phase leaves when the two events declare
  one origin id between them.
\<close>

theorem traversal_terminates_on_cycles:
  "(limit_id \<in> set (AREA event) \<longrightarrow>
      dfs events limit_id AREA (event # stack) = dfs events limit_id AREA stack) \<and>
   (\<forall>AREA'. propagate events = Inr AREA' \<longrightarrow>
      (\<forall>E. distinct (AREA' E) \<and> set (AREA' E) = origins_reaching events E)) \<and>
   (well_linked events \<longrightarrow> (\<exists>AREA'. propagate events = Inr AREA')) \<and>
   (\<forall>AREA'. two_cycle events \<and> dfs events limit_id (\<lambda>event. []) [0] = Inr AREA' \<longrightarrow>
      AREA' 0 = [limit_id] \<and> AREA' 1 = [limit_id]) \<and>
   (\<forall>AREA'. two_cycle events \<and> LIMITED_TO_AREA (events ! 0) = Some limit_id \<and>
      LIMITED_TO_AREA (events ! 1) \<in> {None, Some limit_id} \<and> propagate events = Inr AREA' \<longrightarrow>
      AREA' 0 = [limit_id] \<and> AREA' 1 = [limit_id])"
proof (intro conjI allI impI)
  assume "limit_id \<in> set (AREA event)"
  then show "dfs events limit_id AREA (event # stack) = dfs events limit_id AREA stack"
    by (simp add: dfs.simps)
next
  fix AREA' E
  assume "propagate events = Inr AREA'"
  then show "distinct (AREA' E)" by (rule propagate_distinct)
next
  fix AREA' E
  assume "propagate events = Inr AREA'"
  then show "set (AREA' E) = origins_reaching events E" by (rule propagate_exact)
next
  assume "well_linked events"
  then show "\<exists>AREA'. propagate events = Inr AREA'" by (rule propagate_total)
next
  fix AREA'
  assume a: "two_cycle events \<and> dfs events limit_id (\<lambda>event. []) [0] = Inr AREA'"
  then have l: "(0, 1) \<in> (linked events)\<^sup>*" "(0, 0) \<in> (linked events)\<^sup>*"
    by (auto simp add: two_cycle_def)
  from a l show "AREA' 0 = [limit_id]" "AREA' 1 = [limit_id]"
    by (auto intro: dfs_fresh)
next
  fix AREA'
  assume a: "two_cycle events \<and> LIMITED_TO_AREA (events ! 0) = Some limit_id \<and>
      LIMITED_TO_AREA (events ! 1) \<in> {None, Some limit_id} \<and> propagate events = Inr AREA'"
  then have n: "length events = 2" and l: "(0, 1) \<in> (linked events)\<^sup>*" "(0, 0) \<in> (linked events)\<^sup>*"
    by (auto simp add: two_cycle_def)
  have o: "\<forall>i < length events. LIMITED_TO_AREA (events ! i) = None \<or>
      LIMITED_TO_AREA (events ! i) = Some limit_id"
  proof (intro allI impI)
    fix i assume "i < length events"
    with n have "i = 0 \<or> i = 1" by auto
    with a show "LIMITED_TO_AREA (events ! i) = None \<or> LIMITED_TO_AREA (events ! i) = Some limit_id"
      by auto
  qed
  from a n have p: "propagate events = Inr AREA'" "0 < length events"
    "LIMITED_TO_AREA (events ! 0) = Some limit_id" by simp_all
  show "AREA' 0 = [limit_id]" by (rule single_origin [OF p(1) o p(2,3) l(2)])
  show "AREA' 1 = [limit_id]" by (rule single_origin [OF p(1) o p(2,3) l(1)])
qed

theorem traversal_terminates_on_cycles_witness:
  "two_cycle (cycle_events None) \<and>
   (\<exists>AREA. propagate (cycle_events None) = Inr AREA \<and> AREA 0 = [5] \<and> AREA 1 = [5] \<and>
      dfs (cycle_events None) 5 AREA [0, 1] = Inr AREA) \<and>
   (\<exists>AREA. dfs (cycle_events (Some 6)) 5 (\<lambda>event. []) [0] = Inr AREA \<and> AREA 0 = [5] \<and> AREA 1 = [5])"
proof -
  note t = traversal_terminates_on_cycles [of 5 _ _ "cycle_events None"]
  from t cycle_events_well_linked obtain AREA where p: "propagate (cycle_events None) = Inr AREA"
    by blast
  with t two_cycle_cycle_events have a: "AREA 0 = [5]" "AREA 1 = [5]"
    by (simp_all add: cycle_events_def)
  from a have "dfs (cycle_events None) 5 AREA [0, 1] = dfs (cycle_events None) 5 AREA [1]"
    using traversal_terminates_on_cycles [of 5 AREA 0 "cycle_events None" "[1]"] by simp
  also from a have "\<dots> = dfs (cycle_events None) 5 AREA []"
    using traversal_terminates_on_cycles [of 5 AREA 1 "cycle_events None" "[]"] by simp
  finally have n: "dfs (cycle_events None) 5 AREA [0, 1] = Inr AREA"
    by (simp add: dfs.simps)
  have "\<exists>AREA. dfs (cycle_events (Some 6)) 5 (\<lambda>event. []) [0] = Inr AREA"
    by (simp add: cycle_events_def dfs.simps for_gen_def ForEachBranch_def branch_slots_def
        EVENT_TYPES_def push_link_def EVENTS_MAP_def)
  then obtain AREA2 where d: "dfs (cycle_events (Some 6)) 5 (\<lambda>event. []) [0] = Inr AREA2" ..
  with traversal_terminates_on_cycles [of 5 _ _ "cycle_events (Some 6)"] two_cycle_cycle_events
  have "AREA2 0 = [5] \<and> AREA2 1 = [5]" by blast
  with d p a n two_cycle_cycle_events show ?thesis by blast
qed

text \<open>
  C3, as it was stated, fails on two events that link to each other and declare two
  different origin ids: the phase ends, and each list holds both ids.
\<close>

theorem two_origin_cycle_counterexample:
  "two_cycle (cycle_events (Some 6)) \<and>
   derived_lists (cycle_events (Some 6)) = Inr [[5, 6], [5, 6]]"
proof -
  have "derived_lists (cycle_events (Some 6)) = Inr [[5, 6], [5, 6]]"
    by (simp add: derived_lists_def cycle_events_def propagate_def seed_def dfs.simps for_gen_def
        ForEachBranch_def branch_slots_def EVENT_TYPES_def push_link_def EVENTS_MAP_def)
  with two_cycle_cycle_events show ?thesis by simp
qed

text \<open>
  C4. When \<open>InitGlobals\<close> has run to its end, every entry of every list of
  \<open>SHOP_AREAS\<close> is an area object whose id is not \<open>LIMBO\<close>; and \<open>AddShopInfo\<close>, the only
  place that appends to these lists, keeps them so.
\<close>

theorem shop_areas_exclude_limbo:
  "(InitGlobals AREAS QUALITIES EVENTS EXCHANGES TILES_DATA = Inr g \<longrightarrow>
      limbo_free (G_AREAS g) (G_SHOP_AREAS g)) \<and>
   (AddShopInfo areas grp area shops = Inr shops' \<and> area < length areas \<and> limbo_free areas shops \<longrightarrow>
      limbo_free areas shops')"
proof (intro conjI impI)
  assume "InitGlobals AREAS QUALITIES EVENTS EXCHANGES TILES_DATA = Inr g"
  then have "state_ok (AREAS_MAP AREAS) (map ID AREAS) (G_AREAS g, G_SHOP_AREAS g)"
    by (rule InitGlobals_ok)
  then show "limbo_free (G_AREAS g) (G_SHOP_AREAS g)"
    by (rule state_ok_limbo_free)
next
  assume "AddShopInfo areas grp area shops = Inr shops' \<and> area < length areas \<and> limbo_free areas shops"
  then show "limbo_free areas shops'"
    by (auto intro: AddShopInfo_limbo_free)
qed

theorem shop_areas_exclude_limbo_witness:
  "\<exists>g. InitGlobals shop_AREAS [] shop_EVENTS shop_EXCHANGES shop_TILES = Inr g \<and>
     G_SHOP_AREAS g 900 = Some [0, 2] \<and>
     ID (shop_AREAS ! 4) = LIMBO \<and> ID (G_AREAS g ! 0) \<noteq> LIMBO \<and> ID (G_AREAS g ! 2) \<noteq> LIMBO"
proof -
  from shop_fixture_result obtain g where
    g: "InitGlobals shop_AREAS [] shop_EVENTS shop_EXCHANGES shop_TILES = Inr g"
    and s: "G_SHOP_AREAS g 900 = Some [0, 2]" by blast
  from shop_areas_exclude_limbo [of shop_AREAS "[]" shop_EVENTS shop_EXCHANGES shop_TILES g] g
  have "limbo_free (G_AREAS g) (G_SHOP_AREAS g)" by blast
  with s have "ID (G_AREAS g ! 0) \<noteq> LIMBO \<and> ID (G_AREAS g ! 2) \<noteq> LIMBO"
    by (auto simp add: limbo_free_def)
  moreover have "ID (shop_AREAS ! 4) = LIMBO"
    by (simp add: shop_AREAS_def LIMBO_def)
  ultimately show ?thesis using g s by blast
qed

text \<open>
  C5. When \<open>InitGlobals\<close> has run to its end, no list of \<open>SHOP_AREAS\<close> holds an area
  object twice, and no two entries of a list have the same area id.
\<close>

theorem shop_areas_distinct:
  assumes "InitGlobals AREAS QUALITIES EVENTS EXCHANGES TILES_DATA = Inr g"
    and "G_SHOP_AREAS g gid = Some value"
  shows "distinct value \<and> distinct (map (\<lambda>area. ID (G_AREAS g ! area)) value)"
  using state_ok_distinct [OF InitGlobals_ok [OF assms(1)] assms(2)] by simp

theorem shop_areas_distinct_witness:
  "\<exists>g. InitGlobals shop_AREAS [] shop_EVENTS shop_EXCHANGES shop_TILES = Inr g \<and>
     G_SHOP_AREAS g 900 = Some [0, 2] \<and> distinct (map (\<lambda>area. ID (G_AREAS g ! area)) [0, 2])"
proof -
  from shop_fixture_result obtain g where
    g: "InitGlobals shop_AREAS [] shop_EVENTS shop_EXCHANGES shop_TILES = Inr g"
    and s: "G_SHOP_AREAS g 900 = Some [0, 2]" by blast
  from shop_areas_distinct [OF g s] g s show ?thesis by blast
qed

text \<open>
  C6. The walker ends in an error exactly when one of the event's outcomes has nested
  branches; the error carries the event's id and the nested branches of such an outcome;
  the traversal that visits the event and the dynamic phase that walks it then end in an
  error, and so does \<open>InitGlobals\<close> on a
  table that holds the event.
\<close>

theorem ForEachBranch_nested_branch:
  "(snd (ForEachBranch event) = None \<longleftrightarrow>
      (\<forall>outcome \<in> outcomes_of event. OUTCOME_CHILD_BRANCHES outcome = [])) \<and>
   (\<forall>e. snd (ForEachBranch event) = Some e \<longrightarrow>
      (\<exists>outcome \<in> outcomes_of event. OUTCOME_CHILD_BRANCHES outcome \<noteq> [] \<and>
         e = NestedBranch (ID event) (OUTCOME_CHILD_BRANCHES outcome)) \<and>
      (\<forall>events i limit_id AREA stack. events ! i = event \<and> limit_id \<notin> set (AREA i) \<longrightarrow>
         (\<exists>e'. dfs events limit_id AREA (i # stack) = Inl e')) \<and>
      (\<forall>amap settings_map areas AREA i shops.
         \<exists>e'. dynamic_event amap settings_map areas AREA (i, event) shops = Inl e') \<and>
      (event \<in> set EVENTS \<longrightarrow>
         (\<exists>e'. InitGlobals AREAS QUALITIES EVENTS EXCHANGES TILES_DATA = Inl e')))"
proof (intro conjI allI impI)
  show "snd (ForEachBranch event) = None \<longleftrightarrow>
      (\<forall>outcome \<in> outcomes_of event. OUTCOME_CHILD_BRANCHES outcome = [])"
    by (simp add: ForEachBranch_def walk_slots_clean set_branch_slots Ball_def)
next
  fix e assume "snd (ForEachBranch event) = Some e"
  then show "\<exists>outcome \<in> outcomes_of event. OUTCOME_CHILD_BRANCHES outcome \<noteq> [] \<and>
         e = NestedBranch (ID event) (OUTCOME_CHILD_BRANCHES outcome)"
    unfolding ForEachBranch_def
    by (auto dest!: walk_slots_error simp add: set_branch_slots)
next
  fix e and events :: "event list" and i and limit_id :: int
    and AREA :: "nat \<Rightarrow> int list" and stack
  assume e: "snd (ForEachBranch event) = Some e"
    and i: "events ! i = event \<and> limit_id \<notin> set (AREA i)"
  from for_gen_error [OF e, of "push_link events" stack] obtain e' where
    "for_gen (ForEachBranch event) (push_link events) stack = Inl e'" ..
  with i show "\<exists>e'. dfs events limit_id AREA (i # stack) = Inl e'"
    by (simp add: dfs.simps)
next
  fix e amap settings_map areas AREA i shops
  assume "snd (ForEachBranch event) = Some e"
  then show "\<exists>e'. dynamic_event amap settings_map areas AREA (i, event) shops = Inl e'"
    unfolding dynamic_event_def by (intro for_gen_error) simp
next
  fix e assume "snd (ForEachBranch event) = Some e" "event \<in> set EVENTS"
  then show "\<exists>e'. InitGlobals AREAS QUALITIES EVENTS EXCHANGES TILES_DATA = Inl e'"
    by (intro InitGlobals_nested)
qed

theorem ForEachBranch_nested_branch_witness:
  "ForEachBranch nested_event =
     ([Outcome [] None None], Some (NestedBranch 7 [Branch None None None None])) \<and>
   (\<exists>e. InitGlobals shop_AREAS [] [nested_event] shop_EXCHANGES shop_TILES = Inl e) \<and>
   snd (ForEachBranch (shop_EVENTS ! 0)) = None"
proof -
  have n: "ForEachBranch nested_event =
     ([Outcome [] None None], Some (NestedBranch 7 [Branch None None None None]))"
    by (simp add: ForEachBranch_def nested_event_def branch_slots_def EVENT_TYPES_def)
  then have "snd (ForEachBranch nested_event) = Some (NestedBranch 7 [Branch None None None None])"
    by simp
  from ForEachBranch_nested_branch [where event = nested_event and EVENTS = "[nested_event]"
      and AREAS = shop_AREAS and QUALITIES = "[]" and EXCHANGES = shop_EXCHANGES
      and TILES_DATA = shop_TILES, THEN conjunct2, rule_format, OF this]
  have "\<exists>e. InitGlobals shop_AREAS [] [nested_event] shop_EXCHANGES shop_TILES = Inl e"
    by simp
  moreover have "\<forall>outcome \<in> outcomes_of (shop_EVENTS ! 0). OUTCOME_CHILD_BRANCHES outcome = []"
    by (simp add: shop_EVENTS_def outcomes_of_def)
  with ForEachBranch_nested_branch [of "shop_EVENTS ! 0"]
  have "snd (ForEachBranch (shop_EVENTS ! 0)) = None" by blast
  ultimately show ?thesis using n by blast
qed

text \<open>
  C7. Whatever the three builtins compute: with a token that \<open>int\<close> refuses, the first
  entity of the list whose name (\<open>x[NAME] or ''\<close>) equals the token as it was typed is
  returned, whatever else in the list contains the token.
\<close>

theorem fuzzy_exact_name_returned:
  assumes "py_int tok = None"
    and "find (\<lambda>x. name_or_empty x = tok) lst = Some x"
  shows "FuzzyLookupItem py_int islower lower tok lst = Inr x"
  using assms by (simp add: FuzzyLookupItem_def name_loop_exact)

theorem fuzzy_exact_name_returned_witness:
  "contains ''Fathom'' ''Fathom King'' \<and>
   FuzzyLookupItem ascii_int ascii_islower ascii_lower ''Fathom'' fathom_list =
     Inr \<lparr>ID = 1, NAME = Some ''Fathom''\<rparr>"
proof -
  have f: "find (\<lambda>x. name_or_empty x = ''Fathom'') fathom_list = Some \<lparr>ID = 1, NAME = Some ''Fathom''\<rparr>"
    by (simp add: fathom_list_def name_or_empty_def)
  show ?thesis
    using fuzzy_exact_name_returned
      [where py_int = ascii_int and tok = "''Fathom''" and islower = ascii_islower
        and lower = ascii_lower, OF ascii_int_Fathom f]
    by simp
qed

text \<open>
  C8. Whatever the three builtins compute: with a token that \<open>int\<close> refuses and that no
  entity has as its full name, the entities that match (\<open>name_matches\<close>: the name, folded
  to lower case when \<open>islower\<close> holds of the token, contains the token) decide: one is
  returned, none is the NotFound error naming the token, several are the Ambiguous error
  naming the token and the names of all of them. For a token that \<open>islower\<close> accepts and
  that \<open>lower\<close> leaves as it is, as \<open>str.lower\<close> leaves every such token, matching is
  containment without regard to case; for any other token it is containment as written.
\<close>

theorem fuzzy_substring_matches:
  assumes "py_int tok = None"
    and "\<forall>x \<in> set lst. name_or_empty x \<noteq> tok"
  shows "FuzzyLookupItem py_int islower lower tok lst =
     (case filter (name_matches islower lower tok) lst of
        [] \<Rightarrow> Inl (NameNotFound tok)
      | [x] \<Rightarrow> Inr x
      | ms \<Rightarrow> Inl (MultipleMatches tok (map NAME ms))) \<and>
   (islower tok \<and> lower tok = tok \<longrightarrow>
      (\<forall>x \<in> set lst. name_matches islower lower tok x \<longleftrightarrow>
         sublist (lower tok) (lower (name_or_empty x)))) \<and>
   (\<not> islower tok \<longrightarrow>
      (\<forall>x \<in> set lst. name_matches islower lower tok x \<longleftrightarrow> sublist tok (name_or_empty x)))"
proof (intro conjI impI)
  have "name_loop lower tok (islower tok) lst [] = Inr (filter (name_matches islower lower tok) lst)"
    using name_loop_collect [OF assms(2), of lower "islower tok" "[]"]
    by (simp add: name_matches_code [abs_def])
  with assms(1) show "FuzzyLookupItem py_int islower lower tok lst =
     (case filter (name_matches islower lower tok) lst of
        [] \<Rightarrow> Inl (NameNotFound tok)
      | [x] \<Rightarrow> Inr x
      | ms \<Rightarrow> Inl (MultipleMatches tok (map NAME ms)))"
    by (simp add: FuzzyLookupItem_def split: list.splits)
next
  assume "islower tok \<and> lower tok = tok"
  then show "\<forall>x \<in> set lst. name_matches islower lower tok x \<longleftrightarrow>
      sublist (lower tok) (lower (name_or_empty x))"
    by (simp add: name_matches_def)
next
  assume "\<not> islower tok"
  then show "\<forall>x \<in> set lst. name_matches islower lower tok x \<longleftrightarrow> sublist tok (name_or_empty x)"
    by (simp add: name_matches_def)
qed

theorem fuzzy_substring_matches_witness:
  "ascii_islower ''abc'' \<and> ascii_lower ''abc'' = ''abc'' \<and>
   sublist (ascii_lower ''abc'') (ascii_lower ''ABC Shop'') \<and>
   FuzzyLookupItem ascii_int ascii_islower ascii_lower ''abc'' abc_list =
     Inl (MultipleMatches ''abc'' [Some ''ABC Shop'', Some ''abcdef'']) \<and>
   \<not> ascii_islower ''Abc'' \<and>
   FuzzyLookupItem ascii_int ascii_islower ascii_lower ''Abc'' mixed_list =
     Inr \<lparr>ID = 2, NAME = Some ''Abcdef''\<rparr> \<and>
   FuzzyLookupItem ascii_int ascii_islower ascii_lower ''Abc'' abc_list = Inl (NameNotFound ''Abc'')"
proof -
  have n: "\<forall>x \<in> set abc_list. name_or_empty x \<noteq> ''abc''"
    by (simp add: abc_list_def name_or_empty_def)
  have l: "ascii_lower ''abc'' = ''abc''"
    using ascii_islower_abc by (rule ascii_lower_islower)
  note t = fuzzy_substring_matches
    [where py_int = ascii_int and tok = "''abc''" and islower = ascii_islower
      and lower = ascii_lower, OF ascii_int_abc n]
  have m: "filter (name_matches ascii_islower ascii_lower ''abc'') abc_list = abc_list"
    by (simp add: abc_list_def name_matches_code ascii_islower_abc name_or_empty_def ascii_lower_def
        lower_char_def upper_chars_def lower_chars_def)
  then have "name_matches ascii_islower ascii_lower ''abc'' \<lparr>ID = 1, NAME = Some ''ABC Shop''\<rparr>"
    by (simp add: abc_list_def split: if_splits)
  with t ascii_islower_abc l have a: "sublist (ascii_lower ''abc'') (ascii_lower ''ABC Shop'')"
    by (simp add: abc_list_def name_or_empty_def)
  from t m
  have b: "FuzzyLookupItem ascii_int ascii_islower ascii_lower ''abc'' abc_list =
      Inl (MultipleMatches ''abc'' [Some ''ABC Shop'', Some ''abcdef''])"
    by (simp add: abc_list_def)
  have u: "\<not> ascii_islower ''Abc''"
    by (simp add: ascii_islower_def lower_chars_def upper_chars_def)
  have n2: "\<forall>x \<in> set mixed_list. name_or_empty x \<noteq> ''Abc''"
    by (simp add: mixed_list_def name_or_empty_def)
  note t2 = fuzzy_substring_matches
    [where py_int = ascii_int and tok = "''Abc''" and islower = ascii_islower
      and lower = ascii_lower, OF ascii_int_Abc n2]
  from t2 u have "filter (name_matches ascii_islower ascii_lower ''Abc'') mixed_list =
      filter (\<lambda>x. sublist ''Abc'' (name_or_empty x)) mixed_list"
    by (intro filter_cong) simp_all
  also have "\<dots> = [\<lparr>ID = 2, NAME = Some ''Abcdef''\<rparr>]"
    by (simp add: mixed_list_def name_or_empty_def contains_sublist [symmetric])
  finally have c: "FuzzyLookupItem ascii_int ascii_islower ascii_lower ''Abc'' mixed_list =
      Inr \<lparr>ID = 2, NAME = Some ''Abcdef''\<rparr>"
    using t2 by simp
  have n3: "\<forall>x \<in> set abc_list. name_or_empty x \<noteq> ''Abc''"
    by (simp add: abc_list_def name_or_empty_def)
  note t3 = fuzzy_substring_matches
    [where py_int = ascii_int and tok = "''Abc''" and islower = ascii_islower
      and lower = ascii_lower, OF ascii_int_Abc n3]
  from t3 u have "filter (name_matches ascii_islower ascii_lower ''Abc'') abc_list =
      filter (\<lambda>x. sublist ''Abc'' (name_or_empty x)) abc_list"
    by (intro filter_cong) simp_all
  also have "\<dots> = []"
    by (simp add: abc_list_def name_or_empty_def contains_sublist [symmetric])
  finally have d: "FuzzyLookupItem ascii_int ascii_islower ascii_lower ''Abc'' abc_list =
      Inl (NameNotFound ''Abc'')"
    using t3 by simp
  from a b c d u l ascii_islower_abc show ?thesis by simp
qed

text \<open>
  C9. Whatever the three builtins compute: with a token that \<open>int\<close> accepts, the result is
  decided by the ids alone: the first entity with that id is returned, and if there is
  none the lookup fails with the NotFound error naming the id. No name is read: giving
  the entities other names changes nothing but the name of the entity returned.
\<close>

theorem fuzzy_integer_token:
  assumes "py_int tok = Some idd"
  shows "((\<exists>x \<in> set lst. ID x = idd) \<longrightarrow>
           (\<exists>x \<in> set lst. ID x = idd \<and> FuzzyLookupItem py_int islower lower tok lst = Inr x)) \<and>
         ((\<forall>x \<in> set lst. ID x \<noteq> idd) \<longrightarrow>
           FuzzyLookupItem py_int islower lower tok lst = Inl (IdNotFound idd)) \<and>
         FuzzyLookupItem py_int islower lower tok (map (\<lambda>x. x\<lparr>NAME := rename x\<rparr>) lst) =
           map_sum id (\<lambda>x. x\<lparr>NAME := rename x\<rparr>) (FuzzyLookupItem py_int islower lower tok lst)"
proof (intro conjI impI)
  assume "\<exists>x \<in> set lst. ID x = idd"
  then obtain x where "find (\<lambda>x. ID x = idd) lst = Some x"
    by (cases "find (\<lambda>x. ID x = idd) lst") (auto simp add: find_None_iff)
  moreover from this have "x \<in> set lst \<and> ID x = idd"
    by (auto simp add: find_Some_iff)
  ultimately show "\<exists>x \<in> set lst. ID x = idd \<and> FuzzyLookupItem py_int islower lower tok lst = Inr x"
    using assms by (auto simp add: FuzzyLookupItem_def)
next
  assume "\<forall>x \<in> set lst. ID x \<noteq> idd"
  then have "find (\<lambda>x. ID x = idd) lst = None"
    by (simp add: find_None_iff)
  with assms show "FuzzyLookupItem py_int islower lower tok lst = Inl (IdNotFound idd)"
    by (simp add: FuzzyLookupItem_def)
next
  have "find (\<lambda>x. ID x = idd) (map (\<lambda>x. x\<lparr>NAME := rename x\<rparr>) lst) =
      map_option (\<lambda>x. x\<lparr>NAME := rename x\<rparr>) (find (\<lambda>x. ID x = idd) lst)"
    by (induction lst) simp_all
  with assms show "FuzzyLookupItem py_int islower lower tok (map (\<lambda>x. x\<lparr>NAME := rename x\<rparr>) lst) =
      map_sum id (\<lambda>x. x\<lparr>NAME := rename x\<rparr>) (FuzzyLookupItem py_int islower lower tok lst)"
    by (simp add: FuzzyLookupItem_def split: option.splits)
qed

theorem fuzzy_integer_token_witness:
  "FuzzyLookupItem ascii_int ascii_islower ascii_lower ''42'' id_list = Inr \<lparr>ID = 42, NAME = None\<rparr> \<and>
   contains ''8'' ''8 of Cups'' \<and>
   FuzzyLookupItem ascii_int ascii_islower ascii_lower ''8'' [\<lparr>ID = 3, NAME = Some ''8 of Cups''\<rparr>] =
     Inl (IdNotFound 8)"
proof -
  from fuzzy_integer_token
    [where py_int = ascii_int and tok = "''42''" and islower = ascii_islower
      and lower = ascii_lower and lst = id_list, OF ascii_int_42]
  have "\<exists>x \<in> set id_list. ID x = 42 \<and>
      FuzzyLookupItem ascii_int ascii_islower ascii_lower ''42'' id_list = Inr x"
    by (simp add: id_list_def)
  then have "FuzzyLookupItem ascii_int ascii_islower ascii_lower ''42'' id_list =
      Inr \<lparr>ID = 42, NAME = None\<rparr>"
    by (auto simp add: id_list_def)
  moreover
  from fuzzy_integer_token
    [where py_int = ascii_int and tok = "''8''" and islower = ascii_islower
      and lower = ascii_lower and lst = "[\<lparr>ID = 3, NAME = Some ''8 of Cups''\<rparr>]", OF ascii_int_8]
  have "FuzzyLookupItem ascii_int ascii_islower ascii_lower ''8'' [\<lparr>ID = 3, NAME = Some ''8 of Cups''\<rparr>] =
      Inl (IdNotFound 8)"
    by simp
  ultimately show ?thesis by simp
qed

text \<open>
  C10. A port whose setting id no group has never raises for the setting and never
  changes \<open>SHOP_AREAS\<close>: once its area is resolved, the step sets the area's subsurface
  flag and goes on. An outcome that switches to such a setting id raises the \<open>KeyError\<close>
  of the lookup in \<open>settings_map\<close>, and \<open>InitGlobals\<close> on a table with such an outcome
  ends in an error.
\<close>

theorem unjoined_setting_asymmetry:
  "(settings_map (SETTING port) = None \<longrightarrow>
      static_port amap settings_map port (areas, shops) =
        (case amap (PORT_AREA port) of
           None \<Rightarrow> Inl (KeyError (PORT_AREA port))
         | Some area \<Rightarrow>
             Inr (areas[area := (areas ! area)\<lparr>SUBSURFACE := Some (PORT_SUBSURFACE port)\<rparr>], shops))) \<and>
   (SWITCH_TO_SETTING outcome = Some setting \<and> settings_map setting = None \<longrightarrow>
      dynamic_outcome amap settings_map areas event_area outcome shops = Inl (KeyError setting)) \<and>
   (event \<in> set EVENTS \<and> outcome \<in> outcomes_of event \<and> SWITCH_TO_SETTING outcome = Some setting \<and>
    (\<forall>grp \<in> set EXCHANGES. setting \<notin> set (SETTING_IDS grp)) \<longrightarrow>
      (\<exists>e. InitGlobals AREAS QUALITIES EVENTS EXCHANGES TILES_DATA = Inl e))"
proof (intro conjI impI)
  assume "settings_map (SETTING port) = None"
  then show "static_port amap settings_map port (areas, shops) =
      (case amap (PORT_AREA port) of
         None \<Rightarrow> Inl (KeyError (PORT_AREA port))
       | Some area \<Rightarrow>
           Inr (areas[area := (areas ! area)\<lparr>SUBSURFACE := Some (PORT_SUBSURFACE port)\<rparr>], shops))"
    by (simp add: static_port_def split: option.splits)
next
  assume "SWITCH_TO_SETTING outcome = Some setting \<and> settings_map setting = None"
  then show "dynamic_outcome amap settings_map areas event_area outcome shops = Inl (KeyError setting)"
    by (simp add: dynamic_outcome_unjoined)
next
  assume "event \<in> set EVENTS \<and> outcome \<in> outcomes_of event \<and> SWITCH_TO_SETTING outcome = Some setting \<and>
    (\<forall>grp \<in> set EXCHANGES. setting \<notin> set (SETTING_IDS grp))"
  then show "\<exists>e. InitGlobals AREAS QUALITIES EVENTS EXCHANGES TILES_DATA = Inl e"
    by (intro InitGlobals_unjoined [where event = event and outcome = outcome and setting = setting])
      simp_all
qed

theorem unjoined_setting_asymmetry_witness:
  "SETTING (PORT_DATA (hd (TILES (hd shop_TILES))) ! 3) = 77 \<and>
   (\<exists>g. InitGlobals shop_AREAS [] shop_EVENTS shop_EXCHANGES shop_TILES = Inr g) \<and>
   InitGlobals shop_AREAS [] unjoined_EVENTS shop_EXCHANGES shop_TILES = Inl (KeyError 77)"
proof -
  have "\<exists>e. InitGlobals shop_AREAS [] unjoined_EVENTS shop_EXCHANGES shop_TILES = Inl e"
    using unjoined_setting_asymmetry
      [where outcome = "Outcome [] None (Some 77)" and setting = 77
        and event = "hd unjoined_EVENTS" and EVENTS = unjoined_EVENTS
        and EXCHANGES = shop_EXCHANGES and AREAS = shop_AREAS and QUALITIES = "[]"
        and TILES_DATA = shop_TILES]
    by (simp add: unjoined_EVENTS_def shop_EXCHANGES_def outcomes_of_def)
  moreover have "case InitGlobals shop_AREAS [] unjoined_EVENTS shop_EXCHANGES shop_TILES of
      Inl e \<Rightarrow> e = KeyError 77 | Inr g \<Rightarrow> True"
    by (simp add: shop_fixture unjoined_EVENTS_def InitGlobals_simps)
  ultimately have "InitGlobals shop_AREAS [] unjoined_EVENTS shop_EXCHANGES shop_TILES = Inl (KeyError 77)"
    by auto
  moreover have "SETTING (PORT_DATA (hd (TILES (hd shop_TILES))) ! 3) = 77"
    by (simp add: shop_TILES_def)
  ultimately show ?thesis using shop_fixture_result by blast
qed

end
